theory Spec2Isabelle
  imports Complex_Main "HOL-Library.Log_Nat"
begin

section \<open>JavaScript numbers\<close>

text \<open>
  Every JavaScript number is an IEEE-754 binary64 value. The finite ones are rationals, so a
  number is modelled as a \<open>rat\<close> and every arithmetic operation of the source that can
  round (\<open>/\<close>, \<open>*\<close>, \<open>+\<close>, \<open>-\<close> on non-integers) is the exact operation followed by
  \<open>fl\<close>, the rounding to the nearest binary64 value with ties to the even significand.
  Infinities and NaN are not modelled: the quantities of this program (percentages, day
  counts, \<open>DECIMAL(10,2)\<close> amounts) stay far below \<open>2 ^ 1024\<close>, and every division of the
  source is guarded against a zero divisor or divides by a constant.

  Counters that only ever hold integers below \<open>2 ^ 53\<close> (array lengths, loop indices,
  millisecond timestamps and their differences) are exact in binary64 and are modelled as
  \<open>nat\<close> or \<open>int\<close>.
\<close>

type_synonym number = rat

definition expo :: "rat \<Rightarrow> int" where
  \<comment> \<open>the binary exponent \<open>\<lfloor>log\<^sub>2 \<bar>x\<bar>\<rfloor>\<close> of a non-zero rational\<close>
  "expo x = (let (a, b) = quotient_of \<bar>x\<bar>; d = bitlen a - bitlen b
             in if 2 powi d \<le> \<bar>x\<bar> then d else d - 1)"

definition rne :: "rat \<Rightarrow> int" where
  \<comment> \<open>round to the nearest integer, ties to even\<close>
  "rne y = (let f = \<lfloor>y\<rfloor>; r = y - of_int f
            in if r < 1 / 2 then f
               else if 1 / 2 < r then f + 1
               else if even f then f else f + 1)"

definition fl :: "rat \<Rightarrow> number" where
  \<comment> \<open>53 significant bits; below \<open>2 ^ -1022\<close> the spacing stays \<open>2 ^ -1074\<close> (subnormals)\<close>
  "fl x = (if x = 0 then 0
           else let e = max (expo x) (- 1022); u = 2 powi (e - 52)
                in of_int (rne (x / u)) * u)"

definition js_div :: "number \<Rightarrow> number \<Rightarrow> number" where
  "js_div a b = fl (a / b)"

definition js_mul :: "number \<Rightarrow> number \<Rightarrow> number" where
  "js_mul a b = fl (a * b)"

definition js_add :: "number \<Rightarrow> number \<Rightarrow> number" where
  "js_add a b = fl (a + b)"

definition js_sub :: "number \<Rightarrow> number \<Rightarrow> number" where
  "js_sub a b = fl (a - b)"

definition Math_round :: "number \<Rightarrow> int" where
  \<comment> \<open>\<open>Math.round\<close>: the nearest integer, a tie goes up\<close>
  "Math_round x = \<lfloor>x + 1 / 2\<rfloor>"

definition Math_floor :: "number \<Rightarrow> int" where
  "Math_floor x = \<lfloor>x\<rfloor>"


section \<open>Calendar dates and the clock\<close>

text \<open>
  A calendar date (the \<open>DATE\<close> columns, and the \<open>yyyy-MM-dd\<close> strings the client compares
  with \<open>===\<close>) is the number of days since 1970-01-01: formatting is injective, so equality
  of the strings is equality of the day numbers. An instant is the millisecond count of
  \<open>Date.getTime()\<close>. One read of the clock is a \<open>clock\<close>: \<open>now\<close> is what \<open>new Date()\<close>
  returns and \<open>tzOffset\<close> what \<open>getTimezoneOffset()\<close> returns (minutes, UTC minus local).

  A computation that calls \<open>new Date()\<close> several times gets a new read each time, and
  the reads need not fall on the same date. Such a computation takes the sequence of its
  reads, \<open>reads 0\<close> for its first call of \<open>new Date()\<close>, \<open>reads 1\<close> for the second and so
  on, and passes along the index of the next read.
\<close>

type_synonym date = int
type_synonym instant = int

record clock =
  now :: instant
  tzOffset :: int

type_synonym clock_reads = "nat \<Rightarrow> clock"

definition msPerDay :: int where
  "msPerDay = 1000 * 60 * 60 * 24"

definition localDate :: "clock \<Rightarrow> date" where
  \<comment> \<open>\<open>format(new Date(), 'yyyy-MM-dd')\<close>: the local calendar date\<close>
  "localDate c = (now c - tzOffset c * 60000) div msPerDay"

definition format_subDays :: "clock \<Rightarrow> nat \<Rightarrow> date" where
  \<comment> \<open>\<open>format(subDays(new Date(), i), 'yyyy-MM-dd')\<close>: the local date \<open>i\<close> days back\<close>
  "format_subDays c i = localDate c - int i"

definition Date_parse :: "date \<Rightarrow> instant" where
  \<comment> \<open>\<open>new Date('yyyy-MM-dd').getTime()\<close>: a date-only string is midnight UTC\<close>
  "Date_parse d = d * msPerDay"


section \<open>Rows of the habit tracker (schema.sql)\<close>

record habit_log =
  log_id :: string
  log_habit_id :: string
  log_user_id :: string
  date :: date
  completed :: bool
  log_notes :: "string option"
  log_created_at :: instant

record habit_row =
  habit_id :: string
  habit_user_id :: string
  name :: string
  description :: "string option"
  category :: string
  color :: string
  icon :: string
  frequency :: string
  target_count :: int
  is_archived :: bool
  created_at :: instant
  updated_at :: instant

text \<open>A habit as the dashboard fetches it: \<open>select('*, habit_logs(*)')\<close>.\<close>

record habit = habit_row +
  habit_logs :: "habit_log list"


section \<open>stats-cards.tsx: calculateStats\<close>

text \<open>
  \<open>calculateStats\<close> of src/habit-tracker/src/components/stats-cards.tsx. The two loops keep
  their counters; \<open>streakDays.unshift(date)\<close> is consing. The clock is read for \<open>today\<close>
  (read 0), for \<open>weekAgo\<close> (read 1, a value never used), once in every iteration of the
  streak loop, the breaking one included (reads 2, 3, ...), and then once in every
  iteration of the weekly loop. \<open>r\<close> is the index of the next read.
\<close>

definition completedOn :: "date \<Rightarrow> habit \<Rightarrow> bool" where
  \<comment> \<open>\<open>habit.habit_logs.some(log => log.date === date && log.completed)\<close>\<close>
  "completedOn d h = list_ex (\<lambda>l. date l = d \<and> completed l) (habit_logs h)"

function streakDays_loop ::
  "clock_reads \<Rightarrow> habit list \<Rightarrow> nat \<Rightarrow> nat \<Rightarrow> date list \<Rightarrow> date list \<times> nat" where
  "streakDays_loop reads habits r i streakDays =
     (if i < 30 then
        (let d = format_subDays (reads r) i;
             completed = list_ex (completedOn d) habits
         in if completed then streakDays_loop reads habits (r + 1) (i + 1) (d # streakDays)
            else (streakDays, r + 1))
      else (streakDays, r))"
  by pat_completeness auto
termination
  by (relation "measure (\<lambda>(reads, habits, r, i, streakDays). 30 - i)") auto

function weekly_loop ::
  "clock_reads \<Rightarrow> habit list \<Rightarrow> nat \<Rightarrow> nat \<Rightarrow> nat \<times> nat \<Rightarrow> nat \<times> nat" where
  "weekly_loop reads habits r i (totalCompleted, totalPossible) =
     (if i < 7 then
        (let d = format_subDays (reads r) i;
             dayHabits = length (filter (completedOn d) habits)
         in weekly_loop reads habits (r + 1) (i + 1)
              (totalCompleted + dayHabits, totalPossible + length habits))
      else (totalCompleted, totalPossible))"
  by pat_completeness auto
termination
  by (relation "measure (\<lambda>(reads, habits, r, i, acc). 7 - i)") auto

record stats =
  totalHabits :: nat
  completedToday :: nat
  currentStreak :: nat
  weeklyCompletion :: int

definition calculateStats :: "clock_reads \<Rightarrow> habit list \<Rightarrow> stats" where
  "calculateStats reads habits =
     (let today = localDate (reads 0);
          (streakDays, r) = streakDays_loop reads habits 2 0 [];
          (totalCompleted, totalPossible) = weekly_loop reads habits r 0 (0, 0)
      in \<lparr> totalHabits = length habits,
           completedToday = length (filter (completedOn today) habits),
           currentStreak = length streakDays,
           weeklyCompletion =
             (if totalPossible > 0
              then Math_round (js_mul (js_div (of_nat totalCompleted) (of_nat totalPossible)) 100)
              else 0) \<rparr>)"


section \<open>The hosted service: session, tables, policies\<close>

text \<open>
  The client talks to a hosted database. Only what the client's requests depend on is
  modelled: the signed-in user (\<open>auth.uid()\<close>), the tables of schema.sql as lists of rows,
  the row-level policies (\<open>auth.uid() = user_id\<close> on every operation), the uniqueness
  constraint \<open>UNIQUE(habit_id, user_id, date)\<close> and the foreign key of a log to its habit.
  A request can also fail for a reason outside the tables (transport, a policy or key not
  modelled here): that is the \<open>fault\<close> argument of a request, chosen by the environment.
  Of an error the client reads only \<open>error.message\<close>.
\<close>

datatype error = Error (message: string)

datatype tx_type = income | expense

record transaction =
  t_id :: string
  t_user_id :: string
  amount :: number
  t_description :: string
  t_category :: string
  type :: tx_type
  t_date :: date
  t_created_at :: instant

record server =
  session :: "string option"
  habits_table :: "habit_row list"
  habit_logs_table :: "habit_log list"
  transactions_table :: "transaction list"

definition auth_getUser :: "server \<Rightarrow> string option" where
  \<comment> \<open>\<open>supabase.auth.getUser()\<close>: the id of the user, or none\<close>
  "auth_getUser srv = session srv"

definition visible_logs :: "server \<Rightarrow> habit_log list" where
  \<comment> \<open>policy "Users can view their own habit logs"\<close>
  "visible_logs srv = filter (\<lambda>l. Some (log_user_id l) = session srv) (habit_logs_table srv)"

definition visible_habits :: "server \<Rightarrow> habit_row list" where
  \<comment> \<open>policy "Users can view their own habits"\<close>
  "visible_habits srv = filter (\<lambda>h. Some (habit_user_id h) = session srv) (habits_table srv)"

definition select_habits :: "server \<Rightarrow> string \<Rightarrow> habit list" where
  \<comment> \<open>\<open>from('habits').select('*, habit_logs(*)').eq('user_id', uid).eq('is_archived', false)
      .order('created_at', { ascending: false })\<close>\<close>
  "select_habits srv uid =
     map (\<lambda>h. habit_row.extend h
            (habit.fields (filter (\<lambda>l. log_habit_id l = habit_id h) (visible_logs srv))))
       (sort_key (\<lambda>h. - created_at h)
          (filter (\<lambda>h. habit_user_id h = uid \<and> \<not> is_archived h) (visible_habits srv)))"

definition select_logs_of_habit :: "server \<Rightarrow> string \<Rightarrow> habit_log list" where
  \<comment> \<open>\<open>from('habit_logs').select(...).eq('habit_id', hid)\<close>\<close>
  "select_logs_of_habit srv hid = filter (\<lambda>l. log_habit_id l = hid) (visible_logs srv)"

definition select_completed_logs :: "server \<Rightarrow> string \<Rightarrow> habit_log list" where
  \<comment> \<open>\<open>from('habit_logs').select('date, completed').eq('habit_id', hid).eq('completed', true)
      .order('date', { ascending: false })\<close>\<close>
  "select_completed_logs srv hid =
     sort_key (\<lambda>l. - date l) (filter completed (select_logs_of_habit srv hid))"

definition update_is_archived :: "server \<Rightarrow> error option \<Rightarrow> string \<Rightarrow> error option \<times> server" where
  \<comment> \<open>\<open>from('habits').update({ is_archived: true }).eq('id', hid)\<close>,
      under the policy "Users can update their own habits"\<close>
  "update_is_archived srv fault hid =
     (case fault of
        Some e \<Rightarrow> (Some e, srv)
      | None \<Rightarrow>
          (None, srv\<lparr> habits_table :=
             map (\<lambda>h. if habit_id h = hid \<and> Some (habit_user_id h) = session srv
                       then h\<lparr> is_archived := True \<rparr> else h)
               (habits_table srv) \<rparr>))"

definition unique_violation :: "habit_log list \<Rightarrow> habit_log \<Rightarrow> bool" where
  \<comment> \<open>\<open>UNIQUE(habit_id, user_id, date)\<close>\<close>
  "unique_violation tbl r =
     list_ex (\<lambda>l. log_habit_id l = log_habit_id r \<and> log_user_id l = log_user_id r
                 \<and> date l = date r) tbl"

definition insert_habit_log :: "server \<Rightarrow> error option \<Rightarrow> habit_log \<Rightarrow> error option \<times> server" where
  \<comment> \<open>\<open>from('habit_logs').insert([row])\<close>: the policy's check, then the unique index, then the
      foreign key to the habit\<close>
  "insert_habit_log srv fault r =
     (case fault of
        Some e \<Rightarrow> (Some e, srv)
      | None \<Rightarrow>
          if Some (log_user_id r) \<noteq> session srv then
            (Some (Error ''new row violates row-level security policy''), srv)
          else if unique_violation (habit_logs_table srv) r then
            (Some (Error ''duplicate key value violates unique constraint''), srv)
          else if \<not> list_ex (\<lambda>h. habit_id h = log_habit_id r) (habits_table srv) then
            (Some (Error ''insert violates foreign key constraint''), srv)
          else (None, srv\<lparr> habit_logs_table := habit_logs_table srv @ [r] \<rparr>))"

definition delete_habit_log ::
  "server \<Rightarrow> error option \<Rightarrow> string \<Rightarrow> string \<Rightarrow> date \<Rightarrow> error option \<times> server" where
  \<comment> \<open>\<open>from('habit_logs').delete().eq('habit_id', hid).eq('user_id', uid).eq('date', d)\<close>\<close>
  "delete_habit_log srv fault hid uid d =
     (case fault of
        Some e \<Rightarrow> (Some e, srv)
      | None \<Rightarrow>
          (None, srv\<lparr> habit_logs_table :=
             filter (\<lambda>l. \<not> (Some (log_user_id l) = session srv \<and> log_habit_id l = hid
                             \<and> log_user_id l = uid \<and> date l = d))
               (habit_logs_table srv) \<rparr>))"

definition select_transactions :: "server \<Rightarrow> error option \<Rightarrow> string \<Rightarrow> transaction list option" where
  \<comment> \<open>\<open>from('transactions').select('*').eq('user_id', uid).order('date', { ascending: false })\<close>;
      \<open>data\<close> is null when the request fails\<close>
  "select_transactions srv fault uid =
     (case fault of
        Some e \<Rightarrow> None
      | None \<Rightarrow>
          Some (sort_key (\<lambda>t. - t_date t)
                  (filter (\<lambda>t. Some (t_user_id t) = session srv \<and> t_user_id t = uid)
                     (transactions_table srv))))"


section \<open>What a handler does: events\<close>

text \<open>
  A handler's calls to the outside, in order. Handlers started without \<open>await\<close>
  (\<open>calculateStreaks()\<close>, \<open>onUpdate()\<close>) appear as the event of their start.
\<close>

datatype event =
    AuthGetUser
  | Select string
  | Insert string
  | Update string
  | Delete string
  | RouterPush string
  | ToastSuccess string
  | ToastError string
  | ConsoleError
  | CalculateStreaks
  | OnUpdate

definition is_query :: "event \<Rightarrow> bool" where
  "is_query ev = (case ev of Select t \<Rightarrow> True | Insert t \<Rightarrow> True | Update t \<Rightarrow> True
                  | Delete t \<Rightarrow> True | _ \<Rightarrow> False)"


section \<open>habit-list: streaks and toggling\<close>

text \<open>
  The \<open>HabitList\<close> component (src/unnamed/part_000): its state, \<open>calculateStreaks\<close> and
  \<open>toggleHabit\<close>. \<open>today\<close> is \<open>format(new Date(), 'yyyy-MM-dd')\<close>, the local date, read
  when the component renders. \<open>calculateStreaks\<close> reads the clock once for every habit:
  read \<open>k\<close> is the \<open>currentDate\<close> of the habit at place \<open>k\<close> of the list.
\<close>

record habit_list_state =
  todayLogs :: "string \<rightharpoonup> bool"
  streaks :: "string \<rightharpoonup> int"
  editingHabit :: "string option"
  deletingHabit :: "string option"

definition diffDays :: "instant \<Rightarrow> date \<Rightarrow> int" where
  \<comment> \<open>\<open>Math.floor((currentDate.getTime() - logDate.getTime()) / (1000 * 60 * 60 * 24))\<close>\<close>
  "diffDays currentDate d =
     Math_floor (js_div (of_int (currentDate - Date_parse d)) (of_int msPerDay))"

fun streak_loop :: "instant \<Rightarrow> int \<Rightarrow> habit_log list \<Rightarrow> int" where
  "streak_loop currentDate streak [] = streak"
| "streak_loop currentDate streak (l # logs) =
     (if diffDays currentDate (date l) = streak
      then streak_loop currentDate (streak + 1) logs
      else streak)"

definition habit_streak :: "clock \<Rightarrow> habit_log list option \<Rightarrow> int" where
  \<comment> \<open>one round of the loop over the habits; \<open>logs\<close> is null when its query failed\<close>
  "habit_streak c logs =
     (case logs of None \<Rightarrow> 0 | Some ls \<Rightarrow> streak_loop (now c) 0 ls)"

definition calculateStreaks ::
  "clock_reads \<Rightarrow> server \<Rightarrow> (string \<Rightarrow> bool) \<Rightarrow> habit list \<Rightarrow> habit_list_state
     \<Rightarrow> habit_list_state" where
  \<comment> \<open>\<open>failing hid\<close>: the query for the logs of \<open>hid\<close> fails\<close>
  "calculateStreaks reads srv failing habits st =
     (case auth_getUser srv of
        None \<Rightarrow> st
      | Some user \<Rightarrow>
          st\<lparr> streaks :=
            foldl (\<lambda>streaksMap (k, h).
                     streaksMap(habit_id h \<mapsto>
                       habit_streak (reads k)
                         (if failing (habit_id h) then None
                          else Some (select_completed_logs srv (habit_id h)))))
              Map.empty (enumerate 0 habits) \<rparr>)"

definition new_habit_log :: "clock \<Rightarrow> string \<Rightarrow> string \<Rightarrow> string \<Rightarrow> habit_log" where
  \<comment> \<open>\<open>{ habit_id: habitId, user_id: user.id, date: today, completed: true }\<close> with the
      columns the database fills in; \<open>new_id\<close> is its \<open>gen_random_uuid()\<close>\<close>
  "new_habit_log c new_id habitId user =
     \<lparr> log_id = new_id, log_habit_id = habitId, log_user_id = user, date = localDate c,
       completed = True, log_notes = None, log_created_at = now c \<rparr>"

definition toggleHabit ::
  "clock \<Rightarrow> server \<Rightarrow> error option \<Rightarrow> string \<Rightarrow> habit_list_state \<Rightarrow> string
     \<Rightarrow> event list \<times> habit_list_state \<times> server" where
  "toggleHabit c srv fault new_id st habitId =
     (let today = localDate c in
      case auth_getUser srv of
        None \<Rightarrow> ([AuthGetUser], st, srv)
      | Some user \<Rightarrow>
          if todayLogs st habitId = Some True then
            (case delete_habit_log srv fault habitId user today of
               (Some e, srv') \<Rightarrow>
                 ([AuthGetUser, Delete ''habit_logs'', ToastError (message e)], st, srv')
             | (None, srv') \<Rightarrow>
                 ([AuthGetUser, Delete ''habit_logs'', ToastSuccess ''Habit unchecked for today'',
                   CalculateStreaks, OnUpdate],
                  st\<lparr> todayLogs := (todayLogs st)(habitId \<mapsto> False) \<rparr>, srv'))
          else
            (case insert_habit_log srv fault (new_habit_log c new_id habitId user) of
               (Some e, srv') \<Rightarrow>
                 ([AuthGetUser, Insert ''habit_logs'', ToastError (message e)], st, srv')
             | (None, srv') \<Rightarrow>
                 ([AuthGetUser, Insert ''habit_logs'', ToastSuccess ''Great job! Habit completed!'',
                   CalculateStreaks, OnUpdate],
                  st\<lparr> todayLogs := (todayLogs st)(habitId \<mapsto> True) \<rparr>, srv')))"


section \<open>delete-habit-dialog.tsx: handleDelete\<close>

text \<open>
  The list renders the dialog of habit \<open>hid\<close> open while \<open>deletingHabit = hid\<close>. Its
  callbacks are \<open>onSuccess = { setDeletingHabit(null); onUpdate() }\<close> and
  \<open>onOpenChange = (open) => !open && setDeletingHabit(null)\<close>. The dialog's own state is the
  \<open>loading\<close> flag, true while the request is in flight and false when the handler ends.
\<close>

definition dialog_open :: "habit_list_state \<Rightarrow> string \<Rightarrow> bool" where
  "dialog_open st hid = (deletingHabit st = Some hid)"

definition handleDelete ::
  "server \<Rightarrow> error option \<Rightarrow> habit_list_state \<Rightarrow> string
     \<Rightarrow> event list \<times> bool \<times> habit_list_state \<times> server" where
  "handleDelete srv fault st hid =
     (case update_is_archived srv fault hid of
        (Some e, srv') \<Rightarrow> ([Update ''habits'', ToastError (message e)], False, st, srv')
      | (None, srv') \<Rightarrow>
          ([Update ''habits'', ToastSuccess ''Habit archived successfully'', OnUpdate],
           False, st\<lparr> deletingHabit := None \<rparr>, srv'))"


section \<open>The dashboard pages\<close>

text \<open>
  \<open>fetchHabits\<close> of the habit tracker's dashboard page (src/unnamed/part_001), and
  \<open>loadTransactions\<close> and the totals of the finance dashboard
  (src/personal-finance-dashboard/src/app/dashboard/page.tsx).
\<close>

record dashboard_state =
  st_habits :: "habit list"
  st_loading :: bool
  showCreateDialog :: bool

definition fetchHabits ::
  "server \<Rightarrow> error option \<Rightarrow> dashboard_state \<Rightarrow> event list \<times> dashboard_state" where
  "fetchHabits srv fault st =
     (case auth_getUser srv of
        None \<Rightarrow> ([AuthGetUser, RouterPush ''/login''], st\<lparr> st_loading := False \<rparr>)
      | Some user \<Rightarrow>
          (case fault of
             Some e \<Rightarrow>
               ([AuthGetUser, Select ''habits'', ToastError ''Failed to load habits'', ConsoleError],
                st\<lparr> st_loading := False \<rparr>)
           | None \<Rightarrow>
               ([AuthGetUser, Select ''habits''],
                st\<lparr> st_habits := select_habits srv user, st_loading := False \<rparr>)))"

record finance_state =
  transactions :: "transaction list"
  showAddForm :: bool
  fin_loading :: bool

definition loadTransactions ::
  "server \<Rightarrow> error option \<Rightarrow> finance_state \<Rightarrow> event list \<times> finance_state" where
  "loadTransactions srv fault st =
     (case auth_getUser srv of
        None \<Rightarrow> ([AuthGetUser], st)
      | Some user \<Rightarrow>
          ([AuthGetUser, Select ''transactions''],
           st\<lparr> transactions :=
                 (case select_transactions srv fault user of None \<Rightarrow> [] | Some data \<Rightarrow> data),
               fin_loading := False \<rparr>))"

definition totalIncome :: "transaction list \<Rightarrow> number" where
  "totalIncome ts =
     foldl (\<lambda>sum t. js_add sum (amount t)) 0 (filter (\<lambda>t. type t = income) ts)"

definition totalExpenses :: "transaction list \<Rightarrow> number" where
  "totalExpenses ts =
     foldl (\<lambda>sum t. js_add sum (amount t)) 0 (filter (\<lambda>t. type t = expense) ts)"

definition balance :: "transaction list \<Rightarrow> number" where
  "balance ts = js_sub (totalIncome ts) (totalExpenses ts)"


section \<open>The specification's vocabulary\<close>

text \<open>
  The quantities the specification speaks of, written after its words and compared below
  with what the code computes.
\<close>

definition some_completed :: "habit list \<Rightarrow> date \<Rightarrow> bool" where
  \<comment> \<open>"any habit has a completed log on that date"\<close>
  "some_completed habits d =
     (\<exists>h \<in> set habits. \<exists>l \<in> set (habit_logs h). date l = d \<and> completed l)"

definition habits_completed_on :: "habit list \<Rightarrow> date \<Rightarrow> nat" where
  \<comment> \<open>"how many distinct habits have a completed log that day": habits are told apart by
      their place in the list\<close>
  "habits_completed_on habits d =
     card {j. j < length habits \<and> (\<exists>l \<in> set (habit_logs (habits ! j)). date l = d \<and> completed l)}"

definition weekly_total :: "date \<Rightarrow> habit list \<Rightarrow> nat" where
  \<comment> \<open>the day counts of the trailing 7 days, today inclusive, summed\<close>
  "weekly_total today habits = (\<Sum>i<7. habits_completed_on habits (today - int i))"

definition loop_date :: "clock_reads \<Rightarrow> nat \<Rightarrow> nat \<Rightarrow> date" where
  \<comment> \<open>the date iteration \<open>i\<close> of a loop computes when its iteration 0 takes read \<open>b\<close>\<close>
  "loop_date reads b i = format_subDays (reads (b + i)) i"

definition weekly_first_read :: "clock_reads \<Rightarrow> habit list \<Rightarrow> nat" where
  \<comment> \<open>the index of the read that iteration 0 of the weekly loop takes\<close>
  "weekly_first_read reads habits = snd (streakDays_loop reads habits 2 0 [])"

definition one_date :: "clock_reads \<Rightarrow> nat \<Rightarrow> bool" where
  \<comment> \<open>the first \<open>n\<close> reads of the clock fall on the same local date\<close>
  "one_date reads n = (\<forall>k<n. localDate (reads k) = localDate (reads 0))"

definition archive_row :: "server \<Rightarrow> string \<Rightarrow> habit_row \<Rightarrow> habit_row" where
  \<comment> \<open>a row after the archiving update: only its flag can differ\<close>
  "archive_row srv hid h =
     (if habit_id h = hid \<and> Some (habit_user_id h) = session srv then h\<lparr> is_archived := True \<rparr> else h)"

definition ulp53 :: rat where
  \<comment> \<open>the relative precision of binary64\<close>
  "ulp53 = 1 / 2 ^ 53"


section \<open>Example data\<close>

definition example_log :: "string \<Rightarrow> date \<Rightarrow> habit_log" where
  "example_log hid d =
     \<lparr> log_id = ''log'', log_habit_id = hid, log_user_id = ''u1'', date = d, completed = True,
       log_notes = None, log_created_at = 0 \<rparr>"

definition example_row :: "string \<Rightarrow> habit_row" where
  "example_row hid =
     \<lparr> habit_id = hid, habit_user_id = ''u1'', name = ''Read'', description = None,
       category = ''Learning'', color = ''#8b5cf6'', icon = ''book'', frequency = ''daily'',
       target_count = 1, is_archived = False, created_at = 0, updated_at = 0 \<rparr>"

definition example_habit :: "string \<Rightarrow> date list \<Rightarrow> habit" where
  "example_habit hid ds =
     habit_row.extend (example_row hid) (habit.fields (map (example_log hid) ds))"

definition utc_clock :: clock where
  \<comment> \<open>2024-01-07 04:00 UTC, read in the UTC time zone: the local date is day 19729\<close>
  "utc_clock = \<lparr> now = 1704600000000, tzOffset = 0 \<rparr>"

definition utc_reads :: clock_reads where
  \<comment> \<open>a computation all of whose reads are \<open>utc_clock\<close>\<close>
  "utc_reads k = utc_clock"

definition pacific_clock :: clock where
  \<comment> \<open>the same instant read in UTC-8: 2024-01-06 20:00, the local date is day 19728\<close>
  "pacific_clock = \<lparr> now = 1704600000000, tzOffset = 480 \<rparr>"

definition pacific_reads :: clock_reads where
  \<comment> \<open>a computation all of whose reads are \<open>pacific_clock\<close>\<close>
  "pacific_reads k = pacific_clock"

definition midnight_reads :: "nat \<Rightarrow> clock_reads" where
  \<comment> \<open>in UTC, local midnight passes just before read \<open>m\<close>: the reads before it are of
      2024-01-07 23:59:59.999 (day 19729), those from \<open>m\<close> on of 2024-01-08 00:00:00.001\<close>
  "midnight_reads m k =
     (if k < m then \<lparr> now = 1704671999999, tzOffset = 0 \<rparr>
      else \<lparr> now = 1704672000001, tzOffset = 0 \<rparr>)"

definition day_habits :: "habit list" where
  \<comment> \<open>one habit, completed on day 19729 only\<close>
  "day_habits = [example_habit ''h1'' [19729]]"

definition example_tx :: "number \<Rightarrow> tx_type \<Rightarrow> transaction" where
  "example_tx a ty =
     \<lparr> t_id = ''t'', t_user_id = ''u1'', amount = a, t_description = ''item'',
       t_category = ''Other'', type = ty, t_date = 19729, t_created_at = 0 \<rparr>"

definition example_transactions :: "transaction list" where
  "example_transactions = [example_tx 100 income, example_tx 40 expense, example_tx 10 expense]"

definition cent_transactions :: "transaction list" where
  \<comment> \<open>the incomes 0.10 and 0.20 as they are stored: the nearest binary64 values\<close>
  "cent_transactions = [example_tx (fl (1 / 10)) income, example_tx (fl (2 / 10)) income]"

definition example_server :: "date list \<Rightarrow> server" where
  \<comment> \<open>user u1 is signed in and owns habit h1, with completed logs on the given days\<close>
  "example_server ds =
     \<lparr> session = Some ''u1'', habits_table = [example_row ''h1''],
       habit_logs_table = map (example_log ''h1'') ds, transactions_table = [] \<rparr>"

definition empty_list_state :: habit_list_state where
  "empty_list_state =
     \<lparr> todayLogs = Map.empty, streaks = Map.empty, editingHabit = None, deletingHabit = None \<rparr>"

definition duplicate_server :: server where
  \<comment> \<open>habit h1 already has its log of day 19729\<close>
  "duplicate_server = example_server [19729]"

definition archive_server :: server where
  "archive_server = example_server [19728, 19729]"

definition streak_habits :: "habit list" where
  \<comment> \<open>between them the two habits cover days 19729, 19728, 19727; day 19726 is a gap\<close>
  "streak_habits = [example_habit ''h1'' [19729, 19727], example_habit ''h2'' [19728, 19720]]"

definition low_tie_habits :: "habit list" where
  \<comment> \<open>40 habits, one of them completed on each of the 7 days: 7 of 280, exactly 2.5 percent\<close>
  "low_tie_habits = example_habit ''h'' [19729, 19728, 19727, 19726, 19725, 19724, 19723]
                    # replicate 39 (example_habit ''g'' [])"

definition tie_habits :: "habit list" where
  \<comment> \<open>40 habits, 23 of them completed on each of the 7 days: 161 of 280, exactly 57.5 percent\<close>
  "tie_habits = replicate 23 (example_habit ''h'' [19729, 19728, 19727, 19726, 19725, 19724, 19723])
                @ replicate 17 (example_habit ''g'' [])"


section \<open>Properties of binary64 rounding\<close>

text \<open>
  \<open>expo x\<close> is the binade of \<open>x\<close> (\<open>2 powi expo x \<le> \<bar>x\<bar> < 2 powi (expo x + 1)\<close>), so
  \<open>fl\<close> keeps 53 significant bits: its error is at most half a unit in the last place,
  and integers below \<open>2 ^ 53\<close> are not rounded at all.
\<close>

lemma two_powi_pos: "0 < (2::rat) powi n"
  by (simp add: zero_less_power_int)

lemma rne_err: "\<bar>of_int (rne y) - y\<bar> \<le> 1 / 2"
proof -
  have "of_int \<lfloor>y\<rfloor> \<le> y" "y < of_int \<lfloor>y\<rfloor> + 1" by linarith+
  then show ?thesis by (auto simp: rne_def Let_def)
qed

lemma rne_nonneg: "0 \<le> y \<Longrightarrow> 0 \<le> rne y"
  by (auto simp: rne_def Let_def)

lemma rne_of_int: "rne (of_int k) = k"
  by (simp add: rne_def Let_def)

lemma expo_le:
  assumes "x \<noteq> 0"
  shows "2 powi (expo x) \<le> \<bar>x\<bar>"
proof -
  obtain a b where q: "quotient_of \<bar>x\<bar> = (a, b)" by (cases "quotient_of \<bar>x\<bar>")
  have bpos: "0 < b" using q by (rule quotient_of_denom_pos)
  have xeq: "\<bar>x\<bar> = of_int a / of_int b" using q by (rule quotient_of_div)
  have apos: "0 < a"
  proof -
    have "0 < \<bar>x\<bar>" using assms by simp
    then have "0 < (of_int a :: rat) / of_int b" by (simp add: xeq)
    with bpos show ?thesis by (simp add: zero_less_divide_iff)
  qed
  let ?d = "bitlen a - bitlen b"
  show ?thesis
  proof (cases "2 powi ?d \<le> \<bar>x\<bar>")
    case True
    then show ?thesis by (simp add: expo_def q Let_def)
  next
    case False
    have la: "1 \<le> bitlen a" using apos bitlen_bounds[of a] bitlen_nonneg[of a]
      by (metis bitlen_eq_zero_iff int_one_le_iff_zero_less less_le not_less)
    have lb: "0 \<le> bitlen b" by (rule bitlen_nonneg)
    have "(2::int) ^ nat (bitlen a - 1) \<le> a" using bitlen_bounds[OF apos] by simp
    then have "(of_int ((2::int) ^ nat (bitlen a - 1)) :: rat) \<le> of_int a"
      by (simp only: of_int_le_iff)
    then have A: "(2::rat) powi (bitlen a - 1) \<le> of_int a"
      using la by (simp add: power_int_def)
    have "b < (2::int) ^ nat (bitlen b)" using bitlen_bounds[OF bpos] by simp
    then have "(of_int b :: rat) < of_int ((2::int) ^ nat (bitlen b))"
      by (simp only: of_int_less_iff)
    then have B: "(of_int b :: rat) < 2 powi (bitlen b)"
      using lb by (simp add: power_int_def)
    have "(2::rat) powi (?d - 1) = 2 powi (bitlen a - 1) / 2 powi (bitlen b)"
      by (simp add: power_int_diff)
    also have "\<dots> \<le> of_int a / 2 powi (bitlen b)"
      using A by (simp add: divide_right_mono two_powi_pos less_imp_le)
    also have "\<dots> \<le> of_int a / of_int b"
      using B apos bpos by (intro divide_left_mono) (simp_all add: two_powi_pos)
    finally have "(2::rat) powi (?d - 1) \<le> \<bar>x\<bar>" by (simp add: xeq)
    with False show ?thesis by (simp add: expo_def q Let_def)
  qed
qed

lemma expo_gt:
  assumes "x \<noteq> 0"
  shows "\<bar>x\<bar> < 2 powi (expo x + 1)"
proof -
  obtain a b where q: "quotient_of \<bar>x\<bar> = (a, b)" by (cases "quotient_of \<bar>x\<bar>")
  have bpos: "0 < b" using q by (rule quotient_of_denom_pos)
  have xeq: "\<bar>x\<bar> = of_int a / of_int b" using q by (rule quotient_of_div)
  have apos: "0 < a"
  proof -
    have "0 < \<bar>x\<bar>" using assms by simp
    then have "0 < (of_int a :: rat) / of_int b" by (simp add: xeq)
    with bpos show ?thesis by (simp add: zero_less_divide_iff)
  qed
  let ?d = "bitlen a - bitlen b"
  show ?thesis
  proof (cases "2 powi ?d \<le> \<bar>x\<bar>")
    case True
    have la: "0 \<le> bitlen a" by (rule bitlen_nonneg)
    have lb: "1 \<le> bitlen b" using bpos bitlen_bounds[of b] bitlen_nonneg[of b]
      by (metis bitlen_eq_zero_iff int_one_le_iff_zero_less less_le not_less)
    have "a < (2::int) ^ nat (bitlen a)" using bitlen_bounds[OF apos] by simp
    then have "(of_int a :: rat) < of_int ((2::int) ^ nat (bitlen a))"
      by (simp only: of_int_less_iff)
    then have A: "(of_int a :: rat) < 2 powi (bitlen a)"
      using la by (simp add: power_int_def)
    have "(2::int) ^ nat (bitlen b - 1) \<le> b" using bitlen_bounds[OF bpos] by simp
    then have "(of_int ((2::int) ^ nat (bitlen b - 1)) :: rat) \<le> of_int b"
      by (simp only: of_int_le_iff)
    then have B: "(2::rat) powi (bitlen b - 1) \<le> of_int b"
      using lb by (simp add: power_int_def)
    have "\<bar>x\<bar> = of_int a / of_int b" by (rule xeq)
    also have "\<dots> < 2 powi (bitlen a) / of_int b"
      using A bpos by (intro divide_strict_right_mono) simp_all
    also have "\<dots> \<le> 2 powi (bitlen a) / 2 powi (bitlen b - 1)"
      using B bpos by (intro divide_left_mono) (simp_all add: two_powi_pos less_imp_le)
    also have "\<dots> = 2 powi (bitlen a - (bitlen b - 1))"
      by (simp add: power_int_diff)
    also have "bitlen a - (bitlen b - 1) = ?d + 1" by simp
    finally show ?thesis using True by (simp add: expo_def q Let_def)
  next
    case False
    then show ?thesis by (simp add: expo_def q Let_def)
  qed
qed

lemma expo_le_bound:
  assumes "x \<noteq> 0" "\<bar>x\<bar> < 2 powi m"
  shows "expo x < m"
proof (rule ccontr)
  assume "\<not> expo x < m"
  then have "m \<le> expo x" by simp
  then have "(2::rat) powi m \<le> 2 powi (expo x)" by (intro power_int_increasing) simp_all
  with expo_le[OF assms(1)] assms(2) show False by linarith
qed

lemma fl_err:
  assumes "x \<noteq> 0"
  shows "\<bar>fl x - x\<bar> \<le> 2 powi (max (expo x) (- 1022) - 53)"
proof -
  define e where "e = max (expo x) (- 1022)"
  define u :: rat where "u = 2 powi (e - 52)"
  have upos: "0 < u" by (simp add: u_def two_powi_pos)
  have flx: "fl x = of_int (rne (x / u)) * u"
    using assms by (simp add: fl_def Let_def e_def u_def)
  have "\<bar>fl x - x\<bar> = \<bar>of_int (rne (x / u)) - x / u\<bar> * u"
  proof -
    have "fl x - x = (of_int (rne (x / u)) - x / u) * u"
      using upos by (simp add: flx field_simps)
    then show ?thesis using upos by (simp add: abs_mult)
  qed
  also have "\<dots> \<le> (1 / 2) * u"
    using rne_err[of "x / u"] upos by (intro mult_right_mono) simp_all
  also have "\<dots> = 2 powi (e - 53)"
  proof -
    have "(2::rat) powi (e - 52 - 1) * 2 = 2 powi (e - 52)"
      by (rule power_int_minus_mult) simp
    moreover have "e - 52 - 1 = e - 53" by simp
    ultimately show ?thesis by (simp add: u_def)
  qed
  finally show ?thesis by (simp add: e_def)
qed

lemma fl_err_le:
  assumes "\<bar>x\<bar> < 2 powi m" "- 1021 \<le> m"
  shows "\<bar>fl x - x\<bar> \<le> 2 powi (m - 54)"
proof (cases "x = 0")
  case True
  then show ?thesis by (simp add: fl_def less_imp_le two_powi_pos)
next
  case False
  have "expo x < m" using False assms(1) by (rule expo_le_bound)
  then have "max (expo x) (- 1022) - 53 \<le> m - 54" using assms(2) by simp
  then have "(2::rat) powi (max (expo x) (- 1022) - 53) \<le> 2 powi (m - 54)"
    by (intro power_int_increasing) simp_all
  with fl_err[OF False] show ?thesis by linarith
qed

lemma fl_nonneg: "0 \<le> x \<Longrightarrow> 0 \<le> fl x"
  by (auto simp: fl_def Let_def intro!: mult_nonneg_nonneg rne_nonneg divide_nonneg_nonneg
        simp: two_powi_pos less_imp_le)

lemma fl_zero: "fl 0 = 0"
  by (simp add: fl_def)

lemma fl_of_int:
  assumes "\<bar>k\<bar> < 2 ^ 53"
  shows "fl (of_int k) = of_int k"
proof (cases "k = 0")
  case True
  then show ?thesis by (simp add: fl_def)
next
  case False
  define x :: rat where "x = of_int k"
  have x0: "x \<noteq> 0" using False by (simp add: x_def)
  define e where "e = max (expo x) (- 1022)"
  have "\<bar>x\<bar> = of_int \<bar>k\<bar>" by (simp add: x_def)
  also have "\<dots> < of_int (2 ^ 53)" using assms by (simp only: of_int_less_iff)
  finally have "\<bar>x\<bar> < 2 powi 53" by simp
  then have "expo x < 53" using x0 by (intro expo_le_bound)
  then have e52: "e \<le> 52" by (simp add: e_def)
  define m where "m = nat (52 - e)"
  have u: "(2::rat) powi (e - 52) = 1 / 2 ^ m"
  proof -
    have "e - 52 = - int m" using e52 by (simp add: m_def)
    then show ?thesis by (simp add: power_int_minus_divide)
  qed
  have "x / (1 / 2 ^ m) = of_int (k * 2 ^ m)" by (simp add: x_def)
  then have "rne (x / (1 / 2 ^ m)) = k * 2 ^ m" by (simp only: rne_of_int)
  then have "of_int (rne (x / (1 / 2 ^ m))) * (1 / 2 ^ m) = x" by (simp add: x_def)
  then show ?thesis using x0 unfolding x_def[symmetric]
    by (simp add: fl_def Let_def e_def[symmetric] u)
qed

lemma fl_Ints:
  assumes "x \<in> \<int>" "\<bar>x\<bar> < 2 ^ 53"
  shows "fl x = x"
proof -
  from assms(1) obtain k where k: "x = of_int k" by (rule Ints_cases)
  have "(of_int \<bar>k\<bar> :: rat) < of_int (2 ^ 53)" using assms(2) by (simp add: k)
  then have "\<bar>k\<bar> < 2 ^ 53" by (simp only: of_int_less_iff)
  then show ?thesis unfolding k by (rule fl_of_int)
qed

text \<open>
  Dividing an integer below \<open>2 ^ 53\<close> by a divisor of 27 bits and taking \<open>Math.floor\<close> is
  the integer floor division: the rounding error of the quotient is smaller than the
  distance \<open>1 / m\<close> of an inexact quotient to the next integer.
\<close>

lemma floor_fl_div:
  fixes x m :: int
  assumes "\<bar>x\<bar> < 2 ^ 53" "2 ^ 26 \<le> m" "m < 2 ^ 27"
  shows "\<lfloor>fl (of_int x / of_int m)\<rfloor> = x div m"
proof -
  have mpos: "0 < m" using assms(2) by (simp add: less_le_trans[of 0 "2 ^ 26"])
  define q :: rat where "q = of_int x / of_int m"
  define k where "k = x div m"
  define r where "r = x mod m"
  have x: "x = k * m + r" by (simp add: k_def r_def)
  have r: "0 \<le> r" "r < m" using mpos by (simp_all add: r_def)
  have mq: "(0::rat) < of_int m" using mpos by simp
  have q: "q = of_int k + of_int r / of_int m"
    using mpos by (simp add: q_def x add_divide_distrib)
  show ?thesis
  proof (cases "r = 0")
    case True
    then have qk: "q = of_int k" by (simp add: q)
    have "\<bar>k\<bar> \<le> \<bar>x\<bar>"
    proof -
      have "\<bar>x\<bar> = \<bar>k\<bar> * m" using True mpos by (simp add: x abs_mult)
      moreover have "\<bar>k\<bar> * 1 \<le> \<bar>k\<bar> * m" using mpos by (intro mult_left_mono) simp_all
      ultimately show ?thesis by simp
    qed
    then have "\<bar>k\<bar> < 2 ^ 53" using assms(1) by simp
    then have "fl (of_int k) = of_int k" by (rule fl_of_int)
    then show ?thesis unfolding q_def[symmetric] k_def[symmetric] qk by simp
  next
    case False
    then have r1: "1 \<le> r" "r \<le> m - 1" using r by simp_all
    have lo: "of_int k + 1 / of_int m \<le> q"
    proof -
      have "(1::rat) / of_int m \<le> of_int r / of_int m"
        using r1(1) mq by (intro divide_right_mono) simp_all
      then show ?thesis by (simp add: q)
    qed
    have hi: "q \<le> of_int k + 1 - 1 / of_int m"
    proof -
      have "(of_int r :: rat) \<le> of_int (m - 1)" using r1(2) by (simp only: of_int_le_iff)
      then have "(of_int r :: rat) / of_int m \<le> of_int (m - 1) / of_int m"
        using mq by (intro divide_right_mono) simp_all
      also have "\<dots> = 1 - 1 / of_int m" using mpos by (simp add: diff_divide_distrib)
      finally show ?thesis by (simp add: q)
    qed
    have m26: "(2::rat) ^ 26 \<le> of_int m"
    proof -
      have "(of_int (2 ^ 26) :: rat) \<le> of_int m" using assms(2) by (simp only: of_int_le_iff)
      then show ?thesis by simp
    qed
    have m27: "(of_int m :: rat) < 2 ^ 27"
    proof -
      have "(of_int m :: rat) < of_int (2 ^ 27)" using assms(3) by (simp only: of_int_less_iff)
      then show ?thesis by simp
    qed
    have "\<bar>q\<bar> < 2 powi 27"
    proof -
      have "(of_int \<bar>x\<bar> :: rat) < of_int (2 ^ 53)" using assms(1) by (simp only: of_int_less_iff)
      then have ax: "\<bar>of_int x :: rat\<bar> < 2 ^ 53" by simp
      have "\<bar>q\<bar> = \<bar>of_int x\<bar> / of_int m" using mpos by (simp add: q_def)
      also have "\<dots> < 2 ^ 53 / of_int m" using ax mq by (intro divide_strict_right_mono)
      also have "\<dots> \<le> 2 ^ 53 / 2 ^ 26" using m26 by (intro divide_left_mono) simp_all
      also have "\<dots> = 2 ^ 27" by simp
      finally show ?thesis by simp
    qed
    then have "\<bar>fl q - q\<bar> \<le> 2 powi (27 - 54)" by (rule fl_err_le) simp
    then have e: "\<bar>fl q - q\<bar> \<le> 1 / 2 ^ 27" by (simp add: power_int_minus_divide)
    have small: "(1::rat) / 2 ^ 27 < 1 / of_int m"
      using m27 mq by (intro divide_strict_left_mono) simp_all
    have "of_int k \<le> fl q" "fl q < of_int k + 1" using lo hi e small by linarith+
    then show ?thesis unfolding q_def[symmetric] k_def[symmetric] by (intro floor_unique)
  qed
qed

text \<open>
  The percentage \<open>(c / p) * 100\<close> of the weekly completion, two rounded operations on
  \<open>0 \<le> c \<le> p\<close>: the result is within \<open>164 * 2 ^ -53\<close> of the exact value, which cannot
  carry it across a half that the exact value is not on, since an exact value off a half
  is at least \<open>1 / (2 * p)\<close> away from it.
\<close>

lemma ulp53_pos: "0 < ulp53"
  by (simp add: ulp53_def)

lemma ulp53_small: "7 * 2 ^ 32 * (328 * ulp53) < 1"
  by (simp add: ulp53_def)

lemma ulp53_small': "164 * ulp53 < 1 / 2"
  by (simp add: ulp53_def)

lemma percent_err:
  fixes c p :: nat
  assumes "0 < p" "c \<le> p"
  defines "v' \<equiv> js_mul (js_div (of_nat c) (of_nat p)) 100"
  shows "0 \<le> v'" and "\<bar>v' - 100 * of_nat c / of_nat p\<bar> \<le> 164 * ulp53"
proof -
  define q0 :: rat where "q0 = of_nat c / of_nat p"
  define q where "q = fl q0"
  have q0: "0 \<le> q0" "q0 \<le> 1" using assms by (simp_all add: q0_def)
  have "\<bar>q0\<bar> < 2 powi 1" using q0 by simp
  then have "\<bar>q - q0\<bar> \<le> 2 powi (1 - 54)" unfolding q_def by (rule fl_err_le) simp
  then have eq: "\<bar>q - q0\<bar> \<le> ulp53" by (simp add: power_int_minus_divide ulp53_def)
  have qn: "0 \<le> q" unfolding q_def using q0(1) by (rule fl_nonneg)
  have "q \<le> 1 + ulp53" using eq q0 by linarith
  moreover have "ulp53 < 1 / 100" by (simp add: ulp53_def)
  ultimately have "\<bar>q * 100\<bar> < 2 powi 7" using qn by simp
  then have "\<bar>fl (q * 100) - q * 100\<bar> \<le> 2 powi (7 - 54)" by (rule fl_err_le) simp
  then have et: "\<bar>fl (q * 100) - q * 100\<bar> \<le> 64 * ulp53"
    by (simp add: power_int_minus_divide ulp53_def)
  have v': "v' = fl (q * 100)" by (simp add: v'_def js_mul_def js_div_def q_def q0_def)
  show "0 \<le> v'" unfolding v' using qn by (intro fl_nonneg) simp
  have "\<bar>v' - 100 * q0\<bar> \<le> 164 * ulp53"
    unfolding v' using et eq by linarith
  then show "\<bar>v' - 100 * of_nat c / of_nat p\<bar> \<le> 164 * ulp53" by (simp add: q0_def)
qed

lemma percent_range:
  fixes c p :: nat
  assumes "0 < p" "c \<le> p"
  shows "0 \<le> Math_round (js_mul (js_div (of_nat c) (of_nat p)) 100)"
    and "Math_round (js_mul (js_div (of_nat c) (of_nat p)) 100) \<le> 100"
proof -
  let ?v' = "js_mul (js_div (of_nat c) (of_nat p)) 100"
  have n: "0 \<le> ?v'" and e: "\<bar>?v' - 100 * of_nat c / of_nat p\<bar> \<le> 164 * ulp53"
    using percent_err[OF assms] by simp_all
  have "(of_nat c :: rat) / of_nat p \<le> 1" using assms by simp
  then have "100 * (of_nat c :: rat) / of_nat p \<le> 100" by simp
  with e ulp53_small' have "?v' + 1 / 2 < 101" by linarith
  then show "Math_round ?v' \<le> 100" unfolding Math_round_def by (simp add: floor_less_iff)
  from n show "0 \<le> Math_round ?v'" unfolding Math_round_def by simp
qed

lemma percent_nearest:
  fixes c p :: nat
  assumes "0 < p" "c \<le> p" "p < 7 * 2 ^ 32"
  shows "\<bar>of_int (Math_round (js_mul (js_div (of_nat c) (of_nat p)) 100)) - 100 * of_nat c / of_nat p\<bar>
           \<le> (1 / 2 :: rat)"
proof -
  let ?v' = "js_mul (js_div (of_nat c) (of_nat p)) 100"
  define k where "k = Math_round ?v'"
  define v :: rat where "v = 100 * of_nat c / of_nat p"
  have e: "\<bar>?v' - v\<bar> \<le> 164 * ulp53" unfolding v_def using percent_err(2)[OF assms(1,2)] .
  have k1: "of_int k \<le> ?v' + 1 / 2" and k2: "?v' + 1 / 2 < of_int k + 1"
    unfolding k_def Math_round_def by linarith+
  have e1: "v - ?v' \<le> 164 * ulp53" and e2: "?v' - v \<le> 164 * ulp53"
    using e by (simp_all add: abs_le_iff)
  have ppos: "(0::rat) < of_nat p" using assms(1) by simp
  have pv: "of_nat p * v = of_nat (100 * c)" using assms(1) by (simp add: v_def)
  have pb: "(of_nat p :: rat) < 7 * 2 ^ 32"
  proof -
    have "(of_nat p :: rat) < of_nat (7 * 2 ^ 32)" using assms(3) by (simp only: of_nat_less_iff)
    then show ?thesis by simp
  qed
  have small: "of_nat p * w < 1" if "0 < w" "w \<le> 328 * ulp53" for w :: rat
  proof -
    have "of_nat p * w \<le> of_nat p * (328 * ulp53)" using that ppos by simp
    also have "\<dots> \<le> 7 * 2 ^ 32 * (328 * ulp53)"
      using pb ulp53_pos by (intro mult_right_mono) simp_all
    also have "\<dots> < 1" by (rule ulp53_small)
    finally show ?thesis .
  qed
  have up: "v \<le> of_int k + 1 / 2"
  proof (rule ccontr)
    assume "\<not> v \<le> of_int k + 1 / 2"
    then have gt: "of_int k + 1 / 2 < v" by simp
    then have "of_nat p * (of_int k + 1 / 2) < of_nat p * v" using ppos by simp
    then have "(of_int (int p * (2 * k + 1)) :: rat) < of_int (int (200 * c))"
      using pv by (simp add: algebra_simps)
    then have "int p * (2 * k + 1) < int (200 * c)" by (simp only: of_int_less_iff)
    then have "int p * (2 * k + 1) + 1 \<le> int (200 * c)" by simp
    then have "(of_int (int p * (2 * k + 1) + 1) :: rat) \<le> of_int (int (200 * c))"
      by (simp only: of_int_le_iff)
    then have "of_nat p * (2 * of_int k + 1) + 1 \<le> 2 * (of_nat p * v)"
      using pv by (simp add: algebra_simps)
    then have "of_nat p * (2 * v - 2 * of_int k - 1) \<ge> 1" by (simp add: algebra_simps)
    moreover have "2 * v - 2 * of_int k - 1 \<le> 328 * ulp53" using e1 k2 by linarith
    moreover have "0 < 2 * v - 2 * of_int k - 1" using gt by linarith
    ultimately show False using small[of "2 * v - 2 * of_int k - 1"] by linarith
  qed
  have lo: "of_int k - 1 / 2 \<le> v"
  proof (rule ccontr)
    assume "\<not> of_int k - 1 / 2 \<le> v"
    then have lt: "v < of_int k - 1 / 2" by simp
    then have "of_nat p * v < of_nat p * (of_int k - 1 / 2)" using ppos by simp
    then have "(of_int (int (200 * c)) :: rat) < of_int (int p * (2 * k - 1))"
      using pv by (simp add: algebra_simps)
    then have "int (200 * c) < int p * (2 * k - 1)" by (simp only: of_int_less_iff)
    then have "int (200 * c) + 1 \<le> int p * (2 * k - 1)" by simp
    then have "(of_int (int (200 * c) + 1) :: rat) \<le> of_int (int p * (2 * k - 1))"
      by (simp only: of_int_le_iff)
    then have "2 * (of_nat p * v) + 1 \<le> of_nat p * (2 * of_int k - 1)"
      using pv by (simp add: algebra_simps)
    then have "of_nat p * (2 * of_int k - 2 * v - 1) \<ge> 1" by (simp add: algebra_simps)
    moreover have "2 * of_int k - 2 * v - 1 \<le> 328 * ulp53" using e2 k1 by linarith
    moreover have "0 < 2 * of_int k - 2 * v - 1" using lt by linarith
    ultimately show False using small[of "2 * of_int k - 2 * v - 1"] by linarith
  qed
  from up lo show ?thesis unfolding k_def[symmetric] v_def[symmetric] by linarith
qed


section \<open>Properties of calculateStats\<close>

text \<open>
  What the two loops return, in terms of the date each iteration computes: iteration \<open>i\<close>
  of the streak loop takes read \<open>2 + i\<close>, the weekly loop goes on from the read where the
  streak loop stopped.
\<close>

lemma completedOn_iff: "completedOn d h \<longleftrightarrow> (\<exists>l \<in> set (habit_logs h). date l = d \<and> completed l)"
  by (simp add: completedOn_def list_ex_iff)

lemma list_ex_completedOn: "list_ex (completedOn d) habits \<longleftrightarrow> some_completed habits d"
  by (simp add: some_completed_def list_ex_iff completedOn_iff)

lemmas [simp del] = streakDays_loop.simps weekly_loop.simps

lemma streakDays_loop_fst:
  "i \<le> r \<Longrightarrow>
   length (fst (streakDays_loop reads habits r i acc)) =
     length acc + length (takeWhile (\<lambda>j. some_completed habits (loop_date reads (r - i) j)) [i..<30])"
proof (induction reads habits r i acc rule: streakDays_loop.induct)
  case (1 reads habits r i streakDays)
  show ?case
  proof (cases "i < 30")
    case True
    then have up: "[i..<30] = i # [Suc i..<30]" by (simp add: upt_conv_Cons)
    have d: "loop_date reads (r - i) i = format_subDays (reads r) i"
      using "1.prems" by (simp add: loop_date_def)
    show ?thesis
    proof (cases "some_completed habits (format_subDays (reads r) i)")
      case c: True
      have "length (fst (streakDays_loop reads habits (r + 1) (i + 1)
                      (format_subDays (reads r) i # streakDays))) =
            length (format_subDays (reads r) i # streakDays)
            + length (takeWhile (\<lambda>j. some_completed habits (loop_date reads (r + 1 - (i + 1)) j))
                        [i + 1..<30])"
        using True c "1.prems" by (intro "1.IH") (simp_all add: list_ex_completedOn)
      then show ?thesis using True c
        by (subst streakDays_loop.simps) (simp add: up d list_ex_completedOn Let_def)
    next
      case False
      with True show ?thesis
        by (subst streakDays_loop.simps) (simp add: up d list_ex_completedOn Let_def)
    qed
  next
    case False
    then show ?thesis by (subst streakDays_loop.simps) simp
  qed
qed

lemma streakDays_loop_snd:
  "i \<le> 30 \<Longrightarrow> snd (streakDays_loop reads habits r i acc) \<le> r + (30 - i)"
proof (induction reads habits r i acc rule: streakDays_loop.induct)
  case (1 reads habits r i streakDays)
  show ?case
  proof (cases "i < 30")
    case True
    show ?thesis
    proof (cases "list_ex (completedOn (format_subDays (reads r) i)) habits")
      case c: True
      have "snd (streakDays_loop reads habits (r + 1) (i + 1)
                   (format_subDays (reads r) i # streakDays)) \<le> r + 1 + (30 - (i + 1))"
        using True c by (intro "1.IH") simp_all
      then show ?thesis using True c
        by (subst streakDays_loop.simps) (simp add: Let_def)
    next
      case False
      with True show ?thesis
        by (subst streakDays_loop.simps) (simp add: Let_def)
    qed
  next
    case False
    then show ?thesis by (subst streakDays_loop.simps) simp
  qed
qed

lemma habits_completed_on_filter [code]:
  "habits_completed_on habits d = length (filter (completedOn d) habits)"
  by (simp add: habits_completed_on_def length_filter_conv_card completedOn_iff)

lemma habits_completed_on_le: "habits_completed_on habits d \<le> length habits"
  by (simp add: habits_completed_on_filter)

lemma weekly_loop_eq:
  "i \<le> 7 \<Longrightarrow> i \<le> r \<Longrightarrow>
   weekly_loop reads habits r i (tc, tp) =
     (tc + (\<Sum>j = i..<7. habits_completed_on habits (loop_date reads (r - i) j)),
      tp + (7 - i) * length habits)"
proof (induction reads habits r i "(tc, tp)" arbitrary: tc tp rule: weekly_loop.induct)
  case (1 reads habits r i totalCompleted totalPossible)
  show ?case
  proof (cases "i < 7")
    case True
    have m: "(7 - i) * length habits = length habits + (7 - Suc i) * length habits"
      using True by (simp add: Suc_diff_Suc flip: Suc_diff_Suc)
    have d: "loop_date reads (r - i) i = format_subDays (reads r) i"
      using "1.prems" by (simp add: loop_date_def)
    have "weekly_loop reads habits r i (totalCompleted, totalPossible) =
          weekly_loop reads habits (r + 1) (i + 1)
            (totalCompleted + length (filter (completedOn (format_subDays (reads r) i)) habits),
             totalPossible + length habits)"
      using True by (subst weekly_loop.simps) (simp add: Let_def)
    also have "\<dots> =
          (totalCompleted + length (filter (completedOn (format_subDays (reads r) i)) habits)
             + (\<Sum>j = i + 1..<7. habits_completed_on habits (loop_date reads (r + 1 - (i + 1)) j)),
           totalPossible + length habits + (7 - (i + 1)) * length habits)"
      using True "1.prems" by (intro "1.hyps") (simp_all add: Let_def)
    finally show ?thesis
      by (simp add: sum.atLeast_Suc_lessThan[OF True] m d habits_completed_on_filter)
  next
    case False
    with "1.prems" have "i = 7" by simp
    then show ?thesis by (subst weekly_loop.simps) simp
  qed
qed

lemma weekly_first_read_le: "weekly_first_read reads habits \<le> 32"
  using streakDays_loop_snd[of 0 reads habits 2 "[]"] by (simp add: weekly_first_read_def)

lemma totalHabits_eq: "totalHabits (calculateStats reads habits) = length habits"
  by (simp add: calculateStats_def Let_def split_beta)

lemma completedToday_eq:
  "completedToday (calculateStats reads habits) =
     length (filter (completedOn (localDate (reads 0))) habits)"
  by (simp add: calculateStats_def Let_def split_beta)

lemma currentStreak_eq:
  "currentStreak (calculateStats reads habits) =
     length (takeWhile (\<lambda>j. some_completed habits (loop_date reads 2 j)) [0..<30])"
  using streakDays_loop_fst[of 0 2 reads habits "[]"]
  by (simp add: calculateStats_def Let_def split_beta)

lemma weeklyCompletion_eq:
  "weeklyCompletion (calculateStats reads habits) =
     (let total = (\<Sum>j<7. habits_completed_on habits
                             (loop_date reads (weekly_first_read reads habits) j))
      in if 0 < length habits
         then Math_round (js_mul (js_div (of_nat total) (of_nat (length habits * 7))) 100)
         else 0)"
proof -
  have "weekly_loop reads habits (weekly_first_read reads habits) 0 (0, 0) =
          ((\<Sum>j<7. habits_completed_on habits (loop_date reads (weekly_first_read reads habits) j)),
           length habits * 7)"
    by (simp add: weekly_loop_eq atLeast0LessThan mult.commute)
  then show ?thesis
    by (simp add: calculateStats_def Let_def split_beta weekly_first_read_def)
qed

lemma loop_date_one_date:
  assumes "one_date reads n" "b + j < n"
  shows "loop_date reads b j = localDate (reads 0) - int j"
proof -
  have "localDate (reads (b + j)) = localDate (reads 0)"
    using assms unfolding one_date_def by blast
  then show ?thesis by (simp only: loop_date_def format_subDays_def)
qed

lemma weekly_sum_le:
  "(\<Sum>j<(7::nat). habits_completed_on habits (f j)) \<le> length habits * 7"
proof -
  have "(\<Sum>j<(7::nat). habits_completed_on habits (f j)) \<le> (\<Sum>j<(7::nat). length habits)"
    by (intro sum_mono habits_completed_on_le)
  then show ?thesis by simp
qed

lemma weekly_sum_one_date:
  assumes "one_date reads 39"
  shows "(\<Sum>j<7. habits_completed_on habits (loop_date reads (weekly_first_read reads habits) j))
           = weekly_total (localDate (reads 0)) habits"
  unfolding weekly_total_def
proof (rule sum.cong[OF refl])
  fix j :: nat assume "j \<in> {..<7}"
  then have "weekly_first_read reads habits + j < 39"
    using weekly_first_read_le[of reads habits] by simp
  then show "habits_completed_on habits (loop_date reads (weekly_first_read reads habits) j)
             = habits_completed_on habits (localDate (reads 0) - int j)"
    using loop_date_one_date[OF assms] by simp
qed



lemma one_date_utc_reads: "one_date utc_reads n"
  by (simp add: one_date_def utc_reads_def)




text \<open>
  Claim C5. \<open>completedToday\<close> is the number of habits that have at least one log dated
  today (the local calendar date of the read taken for \<open>today\<close>) whose completed flag is
  true, and so it is at most \<open>totalHabits\<close>.
\<close>

theorem completedToday_count:
  "completedToday (calculateStats reads habits) =
     card {i. i < length habits \<and>
              (\<exists>l \<in> set (habit_logs (habits ! i)). date l = localDate (reads 0) \<and> completed l)}
   \<and> completedToday (calculateStats reads habits) \<le> totalHabits (calculateStats reads habits)"
proof -
  have "completedToday (calculateStats reads habits) =
          card {i. i < length habits \<and>
                   (\<exists>l \<in> set (habit_logs (habits ! i)). date l = localDate (reads 0) \<and> completed l)}"
    by (simp add: completedToday_eq length_filter_conv_card completedOn_iff)
  moreover have "completedToday (calculateStats reads habits) \<le> totalHabits (calculateStats reads habits)"
    by (simp add: completedToday_eq totalHabits_eq)
  ultimately show ?thesis by simp
qed

text \<open>
  \<open>completedToday\<close> uses the date of read 0, iteration 0 of the streak loop the date of
  read 2. When local midnight passes between the two, a habit completed on the first date
  counts as completed today while the streak is 0.
\<close>

theorem streak_completedToday_midnight_counterexample:
  "completedToday (calculateStats (midnight_reads 2) day_habits) = 1
   \<and> currentStreak (calculateStats (midnight_reads 2) day_habits) = 0"
  by code_simp

text \<open>
  Claim C10, amended. When the read for \<open>today\<close> and the read of the first iteration of the
  streak loop fall on the same local date, the global current streak is at least 1
  exactly when \<open>completedToday\<close> is at least 1; equivalently it is 0 exactly when no habit
  has a completed log dated today.
\<close>

theorem streak_positive_iff_completedToday:
  assumes "localDate (reads 2) = localDate (reads 0)"
  shows "(1 \<le> currentStreak (calculateStats reads habits)
            \<longleftrightarrow> 1 \<le> completedToday (calculateStats reads habits))
         \<and> (currentStreak (calculateStats reads habits) = 0
            \<longleftrightarrow> \<not> some_completed habits (localDate (reads 0)))"
proof -
  have up: "[0..<30] = 0 # [1..<30]" by (simp add: upt_conv_Cons)
  have d: "loop_date reads 2 0 = localDate (reads 0)"
    using assms by (simp add: loop_date_def format_subDays_def)
  have s: "currentStreak (calculateStats reads habits) = 0
             \<longleftrightarrow> \<not> some_completed habits (localDate (reads 0))"
    by (simp add: currentStreak_eq up d)
  have t: "1 \<le> completedToday (calculateStats reads habits)
             \<longleftrightarrow> some_completed habits (localDate (reads 0))"
    by (auto simp add: completedToday_eq some_completed_def completedOn_iff Suc_le_eq
          length_greater_0_conv filter_empty_conv simp del: length_greater_0_conv)
  from s t show ?thesis by auto
qed

theorem streak_positive_iff_completedToday_witness:
  "localDate (utc_reads 2) = localDate (utc_reads 0)
   \<and> 1 \<le> currentStreak (calculateStats utc_reads streak_habits)
   \<and> 1 \<le> completedToday (calculateStats utc_reads streak_habits)
   \<and> currentStreak (calculateStats utc_reads []) = 0
   \<and> \<not> some_completed [] (localDate (utc_reads 0))"
proof -
  have h: "localDate (utc_reads 2) = localDate (utc_reads 0)" by (simp add: utc_reads_def)
  have c: "1 \<le> completedToday (calculateStats utc_reads streak_habits)" by code_simp
  have n: "\<not> some_completed [] (localDate (utc_reads 0))" by (simp add: some_completed_def)
  from streak_positive_iff_completedToday[OF h, of streak_habits] c
  have a: "1 \<le> currentStreak (calculateStats utc_reads streak_habits)" by blast
  from streak_positive_iff_completedToday[OF h, of "[]"] n
  have b: "currentStreak (calculateStats utc_reads []) = 0" by blast
  from h a c b n show ?thesis by blast
qed

text \<open>
  The weekly completion is not always the exact percentage rounded half up. 161
  completions of 280 possible are exactly 57.5 percent; the two binary64 roundings of
  \<open>(totalCompleted / totalPossible) * 100\<close> land just below the half and \<open>Math.round\<close>
  gives 57, not 58. And the weekly loop reads the clock anew in every iteration: when
  local midnight passes between its iterations 0 and 1, both test day 19729, the one
  completion is counted twice and 2 of 7 is shown as 29 percent, where one completion in
  the 7 days is 14 percent.
\<close>

theorem weeklyCompletion_counterexample:
  "weeklyCompletion (calculateStats utc_reads tie_habits) = 57
   \<and> round (100 * of_nat (weekly_total 19729 tie_habits) / of_nat (length tie_habits * 7) :: rat) = 58
   \<and> localDate (midnight_reads 5 0) = 19729
   \<and> weeklyCompletion (calculateStats (midnight_reads 5) day_habits) = 29
   \<and> round (100 * of_nat (weekly_total 19729 day_habits) / of_nat (length day_habits * 7) :: rat) = 14"
  by code_simp

text \<open>
  No tie rule describes the result at an exact half: 57.5 percent is shown as 57, while
  7 completions of 280 possible, exactly 2.5 percent, are shown as 3.
\<close>

lemma weeklyCompletion_tie_examples:
  "100 * of_nat (weekly_total 19729 tie_habits) / of_nat (length tie_habits * 7) = (115 / 2 :: rat)
   \<and> weeklyCompletion (calculateStats utc_reads tie_habits) = 57
   \<and> 100 * of_nat (weekly_total 19729 low_tie_habits) / of_nat (length low_tie_habits * 7) = (5 / 2 :: rat)
   \<and> weeklyCompletion (calculateStats utc_reads low_tie_habits) = 3"
  by code_simp

text \<open>
  Claim C1, amended. Let all reads of the clock that \<open>calculateStats\<close> takes fall on one
  local date, today. With \<open>n\<close> habits, \<open>total\<close> the number of habits with a completed log
  on a day, summed over the 7 trailing days (today inclusive), and
  \<open>rate = 100 * total / (n * 7)\<close>: the weekly completion is 0 when \<open>n = 0\<close>, and otherwise
  it is an integer nearest to \<open>rate\<close>, at distance at most 1/2; it is \<open>rate\<close> rounded half up
  whenever \<open>rate\<close> is not exactly halfway between two integers, and one of the two
  neighbours when it is. A list of habits is a JavaScript array, so it has fewer than
  \<open>2 ^ 32\<close> elements.
\<close>

theorem weeklyCompletion_rounded_percentage:
  assumes "length habits < 2 ^ 32" and "one_date reads 39"
  shows "(let n = length habits;
              total = (\<Sum>i<7. habits_completed_on habits (localDate (reads 0) - int i));
              rate = 100 * of_nat total / of_nat (n * 7) :: rat;
              w = weeklyCompletion (calculateStats reads habits)
          in (n = 0 \<longrightarrow> w = 0)
           \<and> (0 < n \<longrightarrow> \<bar>of_int w - rate\<bar> \<le> 1 / 2
                         \<and> (frac rate \<noteq> 1 / 2 \<longrightarrow> w = round rate)))"
proof -
  define n where "n = length habits"
  define total where "total = weekly_total (localDate (reads 0)) habits"
  define rate :: rat where "rate = 100 * of_nat total / of_nat (n * 7)"
  define w where "w = weeklyCompletion (calculateStats reads habits)"
  have weq: "w = (if 0 < n then Math_round (js_mul (js_div (of_nat total) (of_nat (n * 7))) 100)
                  else 0)"
    by (simp add: w_def weeklyCompletion_eq weekly_sum_one_date[OF assms(2)] total_def n_def)
  have z: "w = 0" if "n = 0" using that by (simp add: weq)
  have near: "\<bar>of_int w - rate\<bar> \<le> 1 / 2" if "0 < n"
  proof -
    have "0 < n * 7" using that by simp
    moreover have "total \<le> n * 7"
      unfolding n_def total_def weekly_total_def by (rule weekly_sum_le)
    moreover have "n * 7 < 7 * 2 ^ 32" using assms(1) by (simp add: n_def)
    ultimately have "\<bar>of_int (Math_round (js_mul (js_div (of_nat total) (of_nat (n * 7))) 100))
                       - 100 * of_nat total / of_nat (n * 7)\<bar> \<le> (1 / 2 :: rat)"
      by (rule percent_nearest)
    then show ?thesis using that by (simp add: weq rate_def)
  qed
  have rnd: "w = round rate" if "0 < n" "frac rate \<noteq> 1 / 2"
  proof -
    have a: "\<bar>of_int w - rate\<bar> \<le> 1 / 2" using near that(1) .
    have "rate \<noteq> of_int w + 1 / 2"
    proof
      assume "rate = of_int w + 1 / 2"
      then have "frac rate = frac (1 / 2 :: rat)" by (simp add: frac_def)
      also have "\<dots> = 1 / 2" by (simp add: frac_eq)
      finally show False using that(2) by simp
    qed
    with a have "of_int w \<le> rate + 1 / 2" "rate + 1 / 2 < of_int w + 1" by linarith+
    then have "\<lfloor>rate + 1 / 2\<rfloor> = w" by (intro floor_unique)
    then show ?thesis by (simp add: round_def)
  qed
  from z near rnd show ?thesis
    unfolding Let_def n_def[symmetric] weekly_total_def[symmetric] total_def[symmetric]
      rate_def[symmetric] w_def[symmetric]
    by blast
qed

theorem weeklyCompletion_rounded_percentage_witness:
  "length streak_habits < 2 ^ 32
   \<and> (let n = length streak_habits;
           total = (\<Sum>i<7. habits_completed_on streak_habits (localDate (utc_reads 0) - int i));
           rate = 100 * of_nat total / of_nat (n * 7) :: rat;
           w = weeklyCompletion (calculateStats utc_reads streak_habits)
       in 0 < n \<and> total = 3 \<and> frac rate \<noteq> 1 / 2
          \<and> \<bar>of_int w - rate\<bar> \<le> 1 / 2 \<and> w = round rate \<and> w = 21)"
proof -
  have h: "length streak_habits < 2 ^ 32" by (simp add: streak_habits_def)
  have n: "0 < length streak_habits" by code_simp
  have t: "(\<Sum>i<7. habits_completed_on streak_habits (localDate (utc_reads 0) - int i)) = 3"
    by code_simp
  have f: "frac (100 * of_nat (\<Sum>i<7. habits_completed_on streak_habits (localDate (utc_reads 0) - int i))
             / of_nat (length streak_habits * 7) :: rat) \<noteq> 1 / 2"
    by code_simp
  have v: "weeklyCompletion (calculateStats utc_reads streak_habits) = 21" by code_simp
  from weeklyCompletion_rounded_percentage[OF h one_date_utc_reads] n f
  have "\<bar>of_int (weeklyCompletion (calculateStats utc_reads streak_habits))
          - (100 * of_nat (\<Sum>i<7. habits_completed_on streak_habits (localDate (utc_reads 0) - int i))
             / of_nat (length streak_habits * 7) :: rat)\<bar> \<le> 1 / 2
        \<and> weeklyCompletion (calculateStats utc_reads streak_habits)
          = round (100 * of_nat (\<Sum>i<7. habits_completed_on streak_habits (localDate (utc_reads 0) - int i))
             / of_nat (length streak_habits * 7) :: rat)"
    unfolding Let_def by blast
  with h n t f v show ?thesis unfolding Let_def by blast
qed

text \<open>
  Claim C6. The weekly completion percentage lies between 0 and 100, and it is exactly 0
  when \<open>totalHabits = 0\<close>, whatever dates the reads of the clock fall on.
\<close>

theorem weeklyCompletion_in_range:
  "0 \<le> weeklyCompletion (calculateStats reads habits)
   \<and> weeklyCompletion (calculateStats reads habits) \<le> 100
   \<and> (totalHabits (calculateStats reads habits) = 0
       \<longrightarrow> weeklyCompletion (calculateStats reads habits) = 0)"
proof (cases "0 < length habits")
  case True
  then have p: "0 < length habits * 7" by simp
  from percent_range[OF p weekly_sum_le] True show ?thesis
    by (simp add: weeklyCompletion_eq totalHabits_eq Let_def)
next
  case False
  then show ?thesis by (simp add: weeklyCompletion_eq totalHabits_eq)
qed

theorem weeklyCompletion_in_range_witness:
  "totalHabits (calculateStats utc_reads []) = 0 \<and> weeklyCompletion (calculateStats utc_reads []) = 0
   \<and> weeklyCompletion (calculateStats (midnight_reads 5) day_habits) = 29"
proof -
  have h: "totalHabits (calculateStats utc_reads []) = 0" by code_simp
  have v: "weeklyCompletion (calculateStats (midnight_reads 5) day_habits) = 29" by code_simp
  from weeklyCompletion_in_range[of utc_reads "[]"] h v show ?thesis by blast
qed


section \<open>Properties of the finance totals\<close>

text \<open>
  \<open>reduce((sum, t) => sum + t.amount, 0)\<close> rounds after every addition. While the
  magnitudes of the amounts add up to at most \<open>2 ^ m\<close>, every partial sum stays below
  \<open>2 ^ (m + 1)\<close> and every addition is off by at most \<open>2 ^ m / 2 ^ 53\<close>; whole numbers below
  \<open>2 ^ 53\<close> are added exactly.
\<close>

lemma fl_err_pow:
  fixes m :: nat
  assumes "\<bar>x\<bar> < 2 ^ Suc m"
  shows "\<bar>fl x - x\<bar> \<le> 2 ^ m / 2 ^ 53"
proof -
  have "\<bar>x\<bar> < 2 powi (int m + 1)"
    using assms by (simp add: power_int_add)
  then have "\<bar>fl x - x\<bar> \<le> 2 powi (int m + 1 - 54)" by (rule fl_err_le) simp
  moreover have "(2::rat) powi (int m + 1 - 54) = 2 ^ m / 2 ^ 53"
  proof -
    have "int m + 1 - 54 = int m - 53" by simp
    then show ?thesis by (simp add: power_int_diff)
  qed
  ultimately show ?thesis by simp
qed

lemma foldl_js_add_err:
  fixes m :: nat
  assumes "\<bar>a - e\<bar> \<le> of_nat j * (2 ^ m / 2 ^ 53)"
    and "\<bar>e\<bar> + (\<Sum>x\<leftarrow>xs. \<bar>x\<bar>) \<le> 2 ^ m"
    and "j + length xs < 2 ^ 53"
  shows "\<bar>foldl js_add a xs - (e + sum_list xs)\<bar> \<le> of_nat (j + length xs) * (2 ^ m / 2 ^ 53)"
  using assms
proof (induction xs arbitrary: a e j)
  case Nil
  then show ?case by simp
next
  case (Cons x xs)
  define d :: rat where "d = 2 ^ m / 2 ^ 53"
  have dpos: "0 < d" by (simp add: d_def)
  have nn: "0 \<le> (\<Sum>x\<leftarrow>xs. \<bar>x\<bar>)" by (rule sum_list_nonneg) auto
  have ae: "\<bar>a - e\<bar> \<le> of_nat j * d" using Cons.prems(1) by (simp add: d_def)
  have ex: "\<bar>e\<bar> + \<bar>x\<bar> \<le> 2 ^ m" using Cons.prems(2) nn by simp
  have jd: "of_nat j * d < 2 ^ m"
  proof -
    have "j < 2 ^ 53" using Cons.prems(3) by simp
    then have "(of_nat j :: rat) < of_nat (2 ^ 53)" by (simp only: of_nat_less_iff)
    then have "(of_nat j :: rat) < 2 ^ 53" by simp
    then have "of_nat j * d < 2 ^ 53 * d" using dpos by simp
    then show ?thesis by (simp add: d_def)
  qed
  have "\<bar>a + x\<bar> < 2 ^ m + 2 ^ m" using ae ex jd by linarith
  then have "\<bar>a + x\<bar> < 2 ^ Suc m" by simp
  then have "\<bar>fl (a + x) - (a + x)\<bar> \<le> d" unfolding d_def by (rule fl_err_pow)
  then have "\<bar>js_add a x - (e + x)\<bar> \<le> d + of_nat j * d"
    using ae unfolding js_add_def by linarith
  then have 1: "\<bar>js_add a x - (e + x)\<bar> \<le> of_nat (Suc j) * (2 ^ m / 2 ^ 53)"
    by (simp add: d_def algebra_simps)
  have 2: "\<bar>e + x\<bar> + (\<Sum>x\<leftarrow>xs. \<bar>x\<bar>) \<le> 2 ^ m" using Cons.prems(2) by simp
  have 3: "Suc j + length xs < 2 ^ 53" using Cons.prems(3) by simp
  from Cons.IH[OF 1 2 3] show ?case by (simp add: add.assoc)
qed

lemma foldl_js_add_exact:
  "a \<in> \<int> \<Longrightarrow> \<forall>x \<in> set xs. x \<in> \<int> \<Longrightarrow> \<bar>a\<bar> + (\<Sum>x\<leftarrow>xs. \<bar>x\<bar>) < 2 ^ 53 \<Longrightarrow>
   foldl js_add a xs = a + sum_list xs"
proof (induction xs arbitrary: a)
  case Nil
  then show ?case by simp
next
  case (Cons x xs)
  have nn: "0 \<le> (\<Sum>x\<leftarrow>xs. \<bar>x\<bar>)" by (rule sum_list_nonneg) auto
  have i: "a + x \<in> \<int>" using Cons.prems by simp
  have b: "\<bar>a + x\<bar> < 2 ^ 53" using Cons.prems(3) nn by simp
  have s: "js_add a x = a + x" unfolding js_add_def using i b by (rule fl_Ints)
  have "\<bar>a + x\<bar> + (\<Sum>x\<leftarrow>xs. \<bar>x\<bar>) < 2 ^ 53" using Cons.prems(3) by simp
  with Cons.IH[OF i] Cons.prems(2) show ?case by (simp add: s add.assoc)
qed

lemma sum_list_abs_filter_split:
  fixes f :: "'a \<Rightarrow> rat"
  shows "(\<Sum>x\<leftarrow>filter P xs. \<bar>f x\<bar>) + (\<Sum>x\<leftarrow>filter (\<lambda>x. \<not> P x) xs. \<bar>f x\<bar>) = (\<Sum>x\<leftarrow>xs. \<bar>f x\<bar>)"
  by (induction xs) simp_all

lemma sum_list_abs_bound:
  fixes f :: "'a \<Rightarrow> rat"
  shows "\<bar>\<Sum>x\<leftarrow>xs. f x\<bar> \<le> (\<Sum>x\<leftarrow>xs. \<bar>f x\<bar>)"
  using sum_list_abs[of "map f xs"] by (simp add: comp_def)

lemma sum_list_Ints:
  fixes f :: "'a \<Rightarrow> rat"
  shows "\<forall>x \<in> set xs. f x \<in> \<int> \<Longrightarrow> (\<Sum>x\<leftarrow>xs. f x) \<in> \<int>"
  by (induction xs) simp_all

lemma not_income: "(type t \<noteq> income) = (type t = expense)"
  by (cases "type t") simp_all

lemma totalIncome_foldl:
  "totalIncome ts = foldl js_add 0 (map amount (filter (\<lambda>t. type t = income) ts))"
  by (simp add: totalIncome_def foldl_map)

lemma totalExpenses_foldl:
  "totalExpenses ts = foldl js_add 0 (map amount (filter (\<lambda>t. type t = expense) ts))"
  by (simp add: totalExpenses_def foldl_map)

lemma total_err:
  fixes m :: nat
  assumes "length xs < 2 ^ 53" "(\<Sum>x\<leftarrow>xs. \<bar>x\<bar>) \<le> 2 ^ m"
  shows "\<bar>foldl js_add 0 xs - sum_list xs\<bar> \<le> of_nat (length xs) * (2 ^ m / 2 ^ 53)"
  using foldl_js_add_err[of 0 0 0 m xs] assms by simp

text \<open>
  The total income is not always the sum of the income amounts. The application stores
  amounts with cents; 0.10 and 0.20 are stored as the nearest binary64 values, and the
  total of these two incomes is \<open>2 ^ -55\<close> above the sum of the two stored amounts.
\<close>

theorem finance_totals_counterexample:
  "totalIncome cent_transactions
     \<noteq> (\<Sum>t\<leftarrow>filter (\<lambda>t. type t = income) cent_transactions. amount t)
   \<and> totalIncome cent_transactions
       - (\<Sum>t\<leftarrow>filter (\<lambda>t. type t = income) cent_transactions. amount t) = 1 / 2 ^ 55"
  by code_simp

text \<open>
  Claim C4, amended. For every list of transactions (fewer than \<open>2 ^ 32\<close>, a JavaScript
  array) whose amounts have magnitudes adding up to at most \<open>2 ^ m\<close>: the total income
  is the sum of the amounts of the transactions of type income up to an error of
  \<open>2 ^ m / 2 ^ 53\<close> for each of them, the total expenses likewise for type expense, and
  the balance is the total income minus the total expenses up to \<open>2 ^ m / 2 ^ 53\<close>, so
  that it is the sum of the incomes minus the sum of the expenses up to that error for
  each transaction and once more. When the amounts are whole numbers with magnitudes
  adding up to less than \<open>2 ^ 53\<close>, the three are exactly these sums and this difference.
  For the transactions 100 income, 40 expense, 10 expense the totals are 100, 50 and 50.
\<close>

theorem finance_totals:
  fixes m :: nat
  assumes "length ts < 2 ^ 32" and "(\<Sum>t\<leftarrow>ts. \<bar>amount t\<bar>) \<le> 2 ^ m"
  shows "(let incomes = filter (\<lambda>t. type t = income) ts;
              expenses = filter (\<lambda>t. type t = expense) ts;
              eps = 2 ^ m / 2 ^ 53 :: rat
          in \<bar>totalIncome ts - (\<Sum>t\<leftarrow>incomes. amount t)\<bar> \<le> of_nat (length incomes) * eps
           \<and> \<bar>totalExpenses ts - (\<Sum>t\<leftarrow>expenses. amount t)\<bar> \<le> of_nat (length expenses) * eps
           \<and> \<bar>balance ts - (totalIncome ts - totalExpenses ts)\<bar> \<le> eps
           \<and> \<bar>balance ts - ((\<Sum>t\<leftarrow>incomes. amount t) - (\<Sum>t\<leftarrow>expenses. amount t))\<bar>
               \<le> of_nat (length ts + 1) * eps
           \<and> ((\<forall>t \<in> set ts. amount t \<in> \<int>) \<and> (\<Sum>t\<leftarrow>ts. \<bar>amount t\<bar>) < 2 ^ 53 \<longrightarrow>
                totalIncome ts = (\<Sum>t\<leftarrow>incomes. amount t)
                \<and> totalExpenses ts = (\<Sum>t\<leftarrow>expenses. amount t)
                \<and> balance ts = totalIncome ts - totalExpenses ts))
         \<and> totalIncome example_transactions = 100
         \<and> totalExpenses example_transactions = 50
         \<and> balance example_transactions = 50"
proof -
  let ?I = "filter (\<lambda>t. type t = income) ts" and ?E = "filter (\<lambda>t. type t = expense) ts"
  define eps :: rat where "eps = 2 ^ m / 2 ^ 53"
  define SI where "SI = (\<Sum>t\<leftarrow>?I. amount t)"
  define SE where "SE = (\<Sum>t\<leftarrow>?E. amount t)"
  define kI where "kI = length ?I"
  define kE where "kE = length ?E"
  have epos: "0 < eps" by (simp add: eps_def)
  have split: "(\<Sum>t\<leftarrow>?I. \<bar>amount t\<bar>) + (\<Sum>t\<leftarrow>?E. \<bar>amount t\<bar>) = (\<Sum>t\<leftarrow>ts. \<bar>amount t\<bar>)"
    using sum_list_abs_filter_split[of amount "\<lambda>t. type t = income" ts] by (simp add: not_income)
  have nnI: "0 \<le> (\<Sum>t\<leftarrow>?I. \<bar>amount t\<bar>)" and nnE: "0 \<le> (\<Sum>t\<leftarrow>?E. \<bar>amount t\<bar>)"
    by (rule sum_list_nonneg, auto)+
  have len: "kI + kE = length ts"
    using sum_length_filter_compl[of "\<lambda>t. type t = income" ts]
    by (simp add: kI_def kE_def not_income)
  have n53: "length ts < 2 ^ 53"
    using assms(1) by (rule less_trans) simp
  have kI53: "length (map amount ?I) < 2 ^ 53" and kE53: "length (map amount ?E) < 2 ^ 53"
    using len n53 by (simp_all add: kI_def kE_def)
  have bI: "(\<Sum>x\<leftarrow>map amount ?I. \<bar>x\<bar>) \<le> 2 ^ m" and bE: "(\<Sum>x\<leftarrow>map amount ?E. \<bar>x\<bar>) \<le> 2 ^ m"
    using assms(2) split nnI nnE by (simp_all add: comp_def)
  have eI: "\<bar>totalIncome ts - SI\<bar> \<le> of_nat kI * eps"
    using total_err[OF kI53 bI] by (simp add: totalIncome_foldl SI_def kI_def eps_def)
  have eE: "\<bar>totalExpenses ts - SE\<bar> \<le> of_nat kE * eps"
    using total_err[OF kE53 bE] by (simp add: totalExpenses_foldl SE_def kE_def eps_def)
  have aI: "\<bar>SI\<bar> \<le> (\<Sum>t\<leftarrow>?I. \<bar>amount t\<bar>)" unfolding SI_def by (rule sum_list_abs_bound)
  have aE: "\<bar>SE\<bar> \<le> (\<Sum>t\<leftarrow>?E. \<bar>amount t\<bar>)" unfolding SE_def by (rule sum_list_abs_bound)
  have keps: "of_nat kI * eps + of_nat kE * eps < 2 ^ m"
  proof -
    have "(of_nat (length ts) :: rat) < of_nat (2 ^ 53)" using n53 by (simp only: of_nat_less_iff)
    then have "(of_nat (length ts) :: rat) < 2 ^ 53" by simp
    then have a: "of_nat (length ts) * eps < 2 ^ 53 * eps" using epos by simp
    have b: "2 ^ 53 * eps = 2 ^ m" by (simp add: eps_def)
    have c: "of_nat kI * eps + of_nat kE * eps = of_nat (length ts) * eps"
      unfolding len[symmetric] by (simp add: algebra_simps)
    show ?thesis unfolding c using a unfolding b .
  qed
  have "\<bar>totalIncome ts - totalExpenses ts\<bar> < 2 ^ m + 2 ^ m"
    using eI eE aI aE split assms(2) keps by linarith
  then have "\<bar>totalIncome ts - totalExpenses ts\<bar> < 2 ^ Suc m" by simp
  then have eB: "\<bar>balance ts - (totalIncome ts - totalExpenses ts)\<bar> \<le> eps"
    unfolding balance_def js_sub_def eps_def by (rule fl_err_pow)
  have "\<bar>balance ts - (SI - SE)\<bar> \<le> eps + of_nat kI * eps + of_nat kE * eps"
    using eB eI eE by linarith
  also have "\<dots> = of_nat (length ts + 1) * eps"
    unfolding len[symmetric] by (simp add: algebra_simps)
  finally have eBS: "\<bar>balance ts - (SI - SE)\<bar> \<le> of_nat (length ts + 1) * eps" .
  have ex: "(\<forall>t \<in> set ts. amount t \<in> \<int>) \<and> (\<Sum>t\<leftarrow>ts. \<bar>amount t\<bar>) < 2 ^ 53 \<longrightarrow>
        totalIncome ts = SI \<and> totalExpenses ts = SE
        \<and> balance ts = totalIncome ts - totalExpenses ts"
  proof
    assume h: "(\<forall>t \<in> set ts. amount t \<in> \<int>) \<and> (\<Sum>t\<leftarrow>ts. \<bar>amount t\<bar>) < 2 ^ 53"
    have cI: "\<bar>0::rat\<bar> + (\<Sum>x\<leftarrow>map amount ?I. \<bar>x\<bar>) < 2 ^ 53"
      and cE: "\<bar>0::rat\<bar> + (\<Sum>x\<leftarrow>map amount ?E. \<bar>x\<bar>) < 2 ^ 53"
      using h split nnI nnE by (simp_all add: comp_def)
    have I: "totalIncome ts = SI"
      unfolding totalIncome_foldl SI_def using h cI
      by (subst foldl_js_add_exact) (auto simp: comp_def)
    have E: "totalExpenses ts = SE"
      unfolding totalExpenses_foldl SE_def using h cE
      by (subst foldl_js_add_exact) (auto simp: comp_def)
    have iI: "totalIncome ts \<in> \<int>" unfolding I SI_def using h by (intro sum_list_Ints) auto
    have iE: "totalExpenses ts \<in> \<int>" unfolding E SE_def using h by (intro sum_list_Ints) auto
    have "\<bar>totalIncome ts - totalExpenses ts\<bar> \<le> \<bar>totalIncome ts\<bar> + \<bar>totalExpenses ts\<bar>" by simp
    also have "\<dots> \<le> (\<Sum>t\<leftarrow>?I. \<bar>amount t\<bar>) + (\<Sum>t\<leftarrow>?E. \<bar>amount t\<bar>)"
      unfolding I E using aI aE by linarith
    also have "\<dots> < 2 ^ 53" using h split by simp
    finally have "fl (totalIncome ts - totalExpenses ts) = totalIncome ts - totalExpenses ts"
      using iI iE by (intro fl_Ints) simp_all
    then have B: "balance ts = totalIncome ts - totalExpenses ts"
      by (simp add: balance_def js_sub_def)
    from I E B show "totalIncome ts = SI \<and> totalExpenses ts = SE
        \<and> balance ts = totalIncome ts - totalExpenses ts" by simp
  qed
  have e1: "totalIncome example_transactions = 100" by code_simp
  have e2: "totalExpenses example_transactions = 50" by code_simp
  have e3: "balance example_transactions = 50" by code_simp
  from eI eE eB eBS ex e1 e2 e3 show ?thesis
    unfolding Let_def SI_def[symmetric] SE_def[symmetric] kI_def[symmetric] kE_def[symmetric]
      eps_def[symmetric]
    by blast
qed

theorem finance_totals_witness:
  "length cent_transactions < 2 ^ 32
   \<and> (\<Sum>t\<leftarrow>cent_transactions. \<bar>amount t\<bar>) \<le> 2 ^ 0
   \<and> \<bar>totalIncome cent_transactions
        - (\<Sum>t\<leftarrow>filter (\<lambda>t. type t = income) cent_transactions. amount t)\<bar>
       \<le> of_nat (length (filter (\<lambda>t. type t = income) cent_transactions)) * (2 ^ 0 / 2 ^ 53)
   \<and> (\<Sum>t\<leftarrow>example_transactions. \<bar>amount t\<bar>) = 150
   \<and> totalIncome example_transactions
       = (\<Sum>t\<leftarrow>filter (\<lambda>t. type t = income) example_transactions. amount t)
   \<and> totalExpenses example_transactions
       = (\<Sum>t\<leftarrow>filter (\<lambda>t. type t = expense) example_transactions. amount t)
   \<and> balance example_transactions
       = totalIncome example_transactions - totalExpenses example_transactions
   \<and> balance example_transactions = 50"
proof -
  have l: "length cent_transactions < 2 ^ 32" by (simp add: cent_transactions_def)
  have b: "(\<Sum>t\<leftarrow>cent_transactions. \<bar>amount t\<bar>) \<le> 2 ^ 0" by code_simp
  have l': "length example_transactions < 2 ^ 32" by (simp add: example_transactions_def)
  have s: "(\<Sum>t\<leftarrow>example_transactions. \<bar>amount t\<bar>) = 150"
    by (simp add: example_transactions_def example_tx_def)
  have b': "(\<Sum>t\<leftarrow>example_transactions. \<bar>amount t\<bar>) \<le> 2 ^ 8" unfolding s by simp
  have i: "\<forall>t \<in> set example_transactions. amount t \<in> \<int>"
    by (simp add: example_transactions_def example_tx_def)
  have c: "(\<Sum>t\<leftarrow>example_transactions. \<bar>amount t\<bar>) < 2 ^ 53" unfolding s by simp
  note A = finance_totals[OF l b, unfolded Let_def]
  note B = finance_totals[OF l' b', unfolded Let_def]
  from A have 1: "\<bar>totalIncome cent_transactions
        - (\<Sum>t\<leftarrow>filter (\<lambda>t. type t = income) cent_transactions. amount t)\<bar>
       \<le> of_nat (length (filter (\<lambda>t. type t = income) cent_transactions)) * (2 ^ 0 / 2 ^ 53)"
    by blast
  from B i c have 2: "totalIncome example_transactions
       = (\<Sum>t\<leftarrow>filter (\<lambda>t. type t = income) example_transactions. amount t)
   \<and> totalExpenses example_transactions
       = (\<Sum>t\<leftarrow>filter (\<lambda>t. type t = expense) example_transactions. amount t)
   \<and> balance example_transactions
       = totalIncome example_transactions - totalExpenses example_transactions"
    by blast
  from B have 3: "balance example_transactions = 50" by blast
  from l b 1 s 2 3 show ?thesis by blast
qed


section \<open>Properties of the per-habit streak\<close>

text \<open>
  The loop counts the leading logs whose day difference from now equals their position:
  difference 0 for the first log, 1 for the second, and so on.
\<close>

lemma streak_loop_enumerate:
  "streak_loop currentDate (int n) logs =
     int n + int (length (takeWhile (\<lambda>(i, l). diffDays currentDate (date l) = int i)
                             (enumerate n logs)))"
proof (induction logs arbitrary: n)
  case Nil
  then show ?case by simp
next
  case (Cons l logs)
  have e: "int n + 1 = int (Suc n)" by simp
  show ?case
  proof (cases "diffDays currentDate (date l) = int n")
    case True
    then show ?thesis unfolding streak_loop.simps e using Cons.IH[of "Suc n"] by simp
  next
    case False
    then show ?thesis by simp
  qed
qed

text \<open>
  Within the range of dates a \<open>Date\<close> can hold apart, the rounded division and
  \<open>Math.floor\<close> give the exact day difference, counted from the UTC date of now.
\<close>

lemma diffDays_exact:
  assumes "\<bar>currentDate - Date_parse d\<bar> < 2 ^ 53"
  shows "diffDays currentDate d = currentDate div msPerDay - d"
proof -
  have "\<lfloor>fl (of_int (currentDate - Date_parse d) / of_int msPerDay)\<rfloor>
          = (currentDate - Date_parse d) div msPerDay"
    using assms by (rule floor_fl_div) (simp_all add: msPerDay_def)
  also have "\<dots> = currentDate div msPerDay - d"
  proof -
    have "currentDate - Date_parse d = currentDate + (- d) * msPerDay" by (simp add: Date_parse_def)
    then show ?thesis by (simp add: msPerDay_def)
  qed
  finally show ?thesis by (simp add: diffDays_def Math_floor_def js_div_def)
qed

text \<open>
  A habit completed today and yesterday, by the local calendar the logs are written with,
  gets the streak 2 only while the UTC date equals the local date. Time zone offsets are
  at most 14 hours.
\<close>

lemma streak_today_yesterday:
  assumes tz: "\<bar>tzOffset c\<bar> \<le> 840"
    and l0: "date l0 = localDate c" and l1: "date l1 = localDate c - 1"
  shows "habit_streak c (Some [l0, l1]) = (if now c div msPerDay = localDate c then 2 else 0)"
proof -
  define t where "t = now c - tzOffset c * 60000"
  have ld: "localDate c = t div msPerDay" by (simp add: localDate_def t_def)
  have "t = (t div msPerDay) * msPerDay + t mod msPerDay" by simp
  moreover have "0 \<le> t mod msPerDay" "t mod msPerDay < msPerDay" by (simp_all add: msPerDay_def)
  ultimately have b: "\<bar>t - localDate c * msPerDay\<bar> < msPerDay" unfolding ld by linarith
  have n: "now c = t + tzOffset c * 60000" by (simp add: t_def)
  have r0: "\<bar>now c - Date_parse (localDate c)\<bar> < 2 ^ 53"
    using b tz unfolding n Date_parse_def msPerDay_def by simp
  have r1: "\<bar>now c - Date_parse (localDate c - 1)\<bar> < 2 ^ 53"
    using b tz unfolding n Date_parse_def msPerDay_def by (simp add: algebra_simps)
  show ?thesis
    by (simp add: habit_streak_def l0 l1 diffDays_exact[OF r0] diffDays_exact[OF r1])
qed

text \<open>
  Claim C3. For a habit with completed logs on exactly today and today - 1, the per-habit
  streak is 2. The code does not give this in every time zone: \<open>toggleHabit\<close> dates a
  log with the local calendar date, the streak loop measures whole days from the log's
  midnight UTC to the instant now. At 20:00 on 2024-01-06 in UTC-8 the instant is
  04:00 on 2024-01-07 UTC: the log of today (day 19728) is 28 hours old, its difference
  is 1 instead of 0, the loop stops at once and the streak is 0. Read in UTC the same
  instant gives the streak 2.
\<close>

theorem per_habit_streak_depends_on_time_zone:
  "localDate pacific_clock = 19728
   \<and> select_completed_logs (example_server [19727, 19728]) ''h1''
       = [example_log ''h1'' 19728, example_log ''h1'' 19727]
   \<and> streaks (calculateStreaks pacific_reads (example_server [19727, 19728]) (\<lambda>hid. False)
                [example_habit ''h1'' [19727, 19728]] empty_list_state) ''h1'' = Some 0
   \<and> localDate utc_clock = 19729
   \<and> select_completed_logs (example_server [19728, 19729]) ''h1''
       = [example_log ''h1'' 19729, example_log ''h1'' 19728]
   \<and> streaks (calculateStreaks utc_reads (example_server [19728, 19729]) (\<lambda>hid. False)
                [example_habit ''h1'' [19728, 19729]] empty_list_state) ''h1'' = Some 2"
  by code_simp


section \<open>Properties of the page loads\<close>

lemma page_load_identity_first:
  "hd (fst (fetchHabits srv fault st)) = AuthGetUser"
  "hd (fst (loadTransactions srv fault' fs)) = AuthGetUser"
  by (simp_all add: fetchHabits_def loadTransactions_def split: option.splits)

lemma page_load_signed_out_no_query:
  "\<not> list_ex is_query (fst (fetchHabits (srv\<lparr> session := None \<rparr>) fault st))"
  "\<not> list_ex is_query (fst (loadTransactions (srv\<lparr> session := None \<rparr>) fault' fs))"
  by (simp_all add: fetchHabits_def loadTransactions_def auth_getUser_def is_query_def)

text \<open>
  Claim C7. On a protected page load with no signed-in user the page redirects to the
  login view, in both applications. The habit tracker's \<open>fetchHabits\<close> does; the
  finance dashboard's \<open>loadTransactions\<close> returns after the identity fetch without a
  redirect and without touching its state, so \<open>loading\<close> stays true.
\<close>

theorem finance_dashboard_signed_out_no_redirect:
  "fst (fetchHabits (srv\<lparr> session := None \<rparr>) fault st) = [AuthGetUser, RouterPush ''/login'']
   \<and> loadTransactions (srv\<lparr> session := None \<rparr>) fault fs = ([AuthGetUser], fs)"
  by (simp add: fetchHabits_def loadTransactions_def auth_getUser_def)


section \<open>Properties of failing writes\<close>

lemma toggleHabit_fault:
  "session srv = Some user \<Longrightarrow>
   toggleHabit c srv (Some e) new_id st hid =
     ([AuthGetUser,
       if todayLogs st hid = Some True then Delete ''habit_logs'' else Insert ''habit_logs'',
       ToastError (message e)], st, srv)"
  by (simp add: toggleHabit_def auth_getUser_def insert_habit_log_def delete_habit_log_def Let_def)

lemma toggleHabit_duplicate:
  "session srv = Some user \<Longrightarrow> todayLogs st hid \<noteq> Some True \<Longrightarrow>
   unique_violation (habit_logs_table srv) (new_habit_log c new_id hid user) \<Longrightarrow>
   toggleHabit c srv None new_id st hid =
     ([AuthGetUser, Insert ''habit_logs'',
       ToastError ''duplicate key value violates unique constraint''], st, srv)"
  by (simp add: toggleHabit_def auth_getUser_def insert_habit_log_def Let_def new_habit_log_def)

lemma toggleHabit_error_aborts:
  assumes "toggleHabit c srv fault new_id st hid = (evs, st', srv')" "ToastError msg \<in> set evs"
  shows "st' = st \<and> srv' = srv \<and> CalculateStreaks \<notin> set evs \<and> OnUpdate \<notin> set evs"
  using assms
  by (auto simp: toggleHabit_def auth_getUser_def insert_habit_log_def delete_habit_log_def Let_def
      split: option.splits if_splits)

lemma handleDelete_fault:
  "handleDelete srv (Some e) st hid = ([Update ''habits'', ToastError (message e)], False, st, srv)"
  by (simp add: handleDelete_def update_is_archived_def)

text \<open>
  Claim C8. When the write request of \<open>toggleHabit\<close> fails (for any reason the service
  gives, or because the habit already has a log of this user and date, which the
  uniqueness constraint rejects), the handler ends normally with the error message shown
  as a toast, starts neither \<open>calculateStreaks\<close> nor \<open>onUpdate\<close>, and leaves today's
  completion map, the streaks and the tables as they were. When the write request of the
  archive dialog fails, the error message is shown, neither callback runs and the dialog
  stays open.
\<close>

theorem write_failure_aborts:
  "(session srv = Some user \<longrightarrow>
      toggleHabit c srv (Some e) new_id st hid =
        ([AuthGetUser,
          if todayLogs st hid = Some True then Delete ''habit_logs'' else Insert ''habit_logs'',
          ToastError (message e)], st, srv))
   \<and> (session srv = Some user \<and> todayLogs st hid \<noteq> Some True
        \<and> unique_violation (habit_logs_table srv) (new_habit_log c new_id hid user) \<longrightarrow>
      toggleHabit c srv None new_id st hid =
        ([AuthGetUser, Insert ''habit_logs'',
          ToastError ''duplicate key value violates unique constraint''], st, srv))
   \<and> (\<forall>evs st' srv' msg.
        toggleHabit c srv fault new_id st hid = (evs, st', srv') \<and> ToastError msg \<in> set evs \<longrightarrow>
        todayLogs st' = todayLogs st \<and> streaks st' = streaks st \<and> st' = st \<and> srv' = srv
        \<and> CalculateStreaks \<notin> set evs \<and> OnUpdate \<notin> set evs)
   \<and> handleDelete srv (Some e) st hid = ([Update ''habits'', ToastError (message e)], False, st, srv)
   \<and> (dialog_open st hid \<longrightarrow> dialog_open (fst (snd (snd (handleDelete srv (Some e) st hid)))) hid)"
proof -
  have a: "session srv = Some user \<longrightarrow>
      toggleHabit c srv (Some e) new_id st hid =
        ([AuthGetUser,
          if todayLogs st hid = Some True then Delete ''habit_logs'' else Insert ''habit_logs'',
          ToastError (message e)], st, srv)"
    using toggleHabit_fault by blast
  have b: "session srv = Some user \<and> todayLogs st hid \<noteq> Some True
        \<and> unique_violation (habit_logs_table srv) (new_habit_log c new_id hid user) \<longrightarrow>
      toggleHabit c srv None new_id st hid =
        ([AuthGetUser, Insert ''habit_logs'',
          ToastError ''duplicate key value violates unique constraint''], st, srv)"
    using toggleHabit_duplicate by blast
  have d: "\<forall>evs st' srv' msg.
        toggleHabit c srv fault new_id st hid = (evs, st', srv') \<and> ToastError msg \<in> set evs \<longrightarrow>
        todayLogs st' = todayLogs st \<and> streaks st' = streaks st \<and> st' = st \<and> srv' = srv
        \<and> CalculateStreaks \<notin> set evs \<and> OnUpdate \<notin> set evs"
    using toggleHabit_error_aborts by blast
  have f: "dialog_open st hid \<longrightarrow> dialog_open (fst (snd (snd (handleDelete srv (Some e) st hid)))) hid"
    by (simp add: handleDelete_fault)
  from a b d f handleDelete_fault show ?thesis by blast
qed

theorem write_failure_aborts_witness:
  "session duplicate_server = Some ''u1''
   \<and> unique_violation (habit_logs_table duplicate_server) (new_habit_log utc_clock ''id2'' ''h1'' ''u1'')
   \<and> toggleHabit utc_clock duplicate_server None ''id2'' empty_list_state ''h1'' =
       ([AuthGetUser, Insert ''habit_logs'',
         ToastError ''duplicate key value violates unique constraint''], empty_list_state, duplicate_server)
   \<and> toggleHabit utc_clock duplicate_server (Some (Error ''Failed to fetch'')) ''id2'' empty_list_state ''h1'' =
       ([AuthGetUser, Insert ''habit_logs'', ToastError ''Failed to fetch''], empty_list_state, duplicate_server)
   \<and> dialog_open (empty_list_state\<lparr> deletingHabit := Some ''h1'' \<rparr>) ''h1''
   \<and> dialog_open (fst (snd (snd (handleDelete duplicate_server (Some (Error ''Failed to fetch''))
          (empty_list_state\<lparr> deletingHabit := Some ''h1'' \<rparr>) ''h1'')))) ''h1''"
proof -
  have s: "session duplicate_server = Some ''u1''" by code_simp
  have t: "todayLogs empty_list_state ''h1'' \<noteq> Some True" by (simp add: empty_list_state_def)
  have u: "unique_violation (habit_logs_table duplicate_server) (new_habit_log utc_clock ''id2'' ''h1'' ''u1'')"
    by code_simp
  have o: "dialog_open (empty_list_state\<lparr> deletingHabit := Some ''h1'' \<rparr>) ''h1''"
    by (simp add: dialog_open_def)
  have m: "message (Error ''Failed to fetch'') = ''Failed to fetch''" by simp
  note w1 = write_failure_aborts[of duplicate_server "''u1''" utc_clock "Error ''Failed to fetch''" "''id2''"
                empty_list_state "''h1''" None]
  note w2 = write_failure_aborts[of duplicate_server "''u1''" utc_clock "Error ''Failed to fetch''" "''id2''"
                "empty_list_state\<lparr> deletingHabit := Some ''h1'' \<rparr>" "''h1''" None]
  from w1 s t u have
    "toggleHabit utc_clock duplicate_server None ''id2'' empty_list_state ''h1'' =
       ([AuthGetUser, Insert ''habit_logs'',
         ToastError ''duplicate key value violates unique constraint''], empty_list_state, duplicate_server)"
    by blast
  moreover from w1 s t have
    "toggleHabit utc_clock duplicate_server (Some (Error ''Failed to fetch'')) ''id2'' empty_list_state ''h1'' =
       ([AuthGetUser, Insert ''habit_logs'', ToastError ''Failed to fetch''], empty_list_state, duplicate_server)"
    unfolding m by simp
  moreover from w2 o have
    "dialog_open (fst (snd (snd (handleDelete duplicate_server (Some (Error ''Failed to fetch''))
          (empty_list_state\<lparr> deletingHabit := Some ''h1'' \<rparr>) ''h1'')))) ''h1''"
    by blast
  ultimately show ?thesis using s u o by blast
qed


section \<open>Properties of archiving\<close>

lemma handleDelete_ok:
  "handleDelete srv None st hid =
     ([Update ''habits'', ToastSuccess ''Habit archived successfully'', OnUpdate], False,
      st\<lparr> deletingHabit := None \<rparr>,
      srv\<lparr> habits_table := map (archive_row srv hid) (habits_table srv) \<rparr>)"
  by (simp add: handleDelete_def update_is_archived_def archive_row_def[abs_def])

lemma habit_id_extend [simp]: "habit_id (habit_row.extend h m) = habit_id h"
  by (simp add: habit_row.defs)

lemma visible_habits_archived:
  "visible_habits (srv\<lparr> habits_table := map (archive_row srv hid) (habits_table srv) \<rparr>)
     = map (archive_row srv hid) (visible_habits srv)"
proof -
  have "habit_user_id (archive_row srv hid h) = habit_user_id h" for h
    by (simp add: archive_row_def)
  then show ?thesis by (simp add: visible_habits_def filter_map comp_def)
qed

lemma active_after_archive:
  "filter (\<lambda>h. habit_user_id h = uid \<and> \<not> is_archived h) (map (archive_row srv hid) (visible_habits srv))
     = filter (\<lambda>h. habit_id h \<noteq> hid) (filter (\<lambda>h. habit_user_id h = uid \<and> \<not> is_archived h) (visible_habits srv))"
proof -
  have "filter (\<lambda>h. habit_user_id h = uid \<and> \<not> is_archived h) (map (archive_row srv hid) (visible_habits srv))
        = map (archive_row srv hid)
            (filter (\<lambda>h. habit_id h \<noteq> hid \<and> habit_user_id h = uid \<and> \<not> is_archived h) (visible_habits srv))"
    unfolding filter_map comp_def
    by (rule arg_cong[where f = "map (archive_row srv hid)"], rule filter_cong)
       (auto simp: archive_row_def visible_habits_def)
  also have "\<dots> = filter (\<lambda>h. habit_id h \<noteq> hid \<and> habit_user_id h = uid \<and> \<not> is_archived h) (visible_habits srv)"
    by (rule map_idI) (simp add: archive_row_def)
  finally show ?thesis by (simp add: conj_commute conj_left_commute)
qed

lemma select_habits_after_archive:
  "select_habits (srv\<lparr> habits_table := map (archive_row srv hid) (habits_table srv) \<rparr>) uid
     = filter (\<lambda>h. habit_id h \<noteq> hid) (select_habits srv uid)"
proof -
  let ?srv' = "srv\<lparr> habits_table := map (archive_row srv hid) (habits_table srv) \<rparr>"
  have vl: "visible_logs ?srv' = visible_logs srv" by (simp add: visible_logs_def)
  show ?thesis
    unfolding select_habits_def vl visible_habits_archived active_after_archive
    by (simp add: filter_map comp_def filter_sort)
qed

text \<open>
  Claim C9. Archiving a habit is a soft delete. A successful \<open>handleDelete\<close> changes no
  log and removes no habit row; a row differs from what it was at most in
  \<open>is_archived\<close>, which is true afterwards for the signed-in user's habit with the given
  id, and rows with another id are untouched. A subsequent fetch of the active habits
  returns what it returned before without that habit, and the habit's logs are retrieved
  by habit id as before.
\<close>

theorem archive_is_soft_delete:
  "(let (evs, loading, st', srv') = handleDelete srv None st hid in
      habit_logs_table srv' = habit_logs_table srv
      \<and> length (habits_table srv') = length (habits_table srv)
      \<and> (\<forall>i < length (habits_table srv).
            (habits_table srv' ! i)\<lparr> is_archived := is_archived (habits_table srv ! i) \<rparr>
              = habits_table srv ! i
            \<and> (habit_id (habits_table srv ! i) = hid
                 \<and> Some (habit_user_id (habits_table srv ! i)) = session srv
                \<longrightarrow> is_archived (habits_table srv' ! i))
            \<and> (habit_id (habits_table srv ! i) \<noteq> hid
                \<longrightarrow> habits_table srv' ! i = habits_table srv ! i))
      \<and> (\<forall>uid. select_habits srv' uid = filter (\<lambda>h. habit_id h \<noteq> hid) (select_habits srv uid))
      \<and> (\<forall>uid. \<forall>h \<in> set (select_habits srv' uid). habit_id h \<noteq> hid)
      \<and> select_logs_of_habit srv' hid = select_logs_of_habit srv hid)"
proof -
  let ?srv' = "srv\<lparr> habits_table := map (archive_row srv hid) (habits_table srv) \<rparr>"
  have rows: "\<forall>i < length (habits_table srv).
            (habits_table ?srv' ! i)\<lparr> is_archived := is_archived (habits_table srv ! i) \<rparr>
              = habits_table srv ! i
            \<and> (habit_id (habits_table srv ! i) = hid
                 \<and> Some (habit_user_id (habits_table srv ! i)) = session srv
                \<longrightarrow> is_archived (habits_table ?srv' ! i))
            \<and> (habit_id (habits_table srv ! i) \<noteq> hid
                \<longrightarrow> habits_table ?srv' ! i = habits_table srv ! i)"
    by (simp add: archive_row_def)
  have sel: "\<forall>uid. select_habits ?srv' uid = filter (\<lambda>h. habit_id h \<noteq> hid) (select_habits srv uid)"
    by (simp add: select_habits_after_archive)
  then have gone: "\<forall>uid. \<forall>h \<in> set (select_habits ?srv' uid). habit_id h \<noteq> hid" by simp
  have logs: "select_logs_of_habit ?srv' hid = select_logs_of_habit srv hid"
    by (simp add: select_logs_of_habit_def visible_logs_def)
  have "habit_logs_table ?srv' = habit_logs_table srv"
    and "length (habits_table ?srv') = length (habits_table srv)" by simp_all
  with rows sel gone logs show ?thesis
    unfolding handleDelete_ok by (simp only: prod.case Let_def) blast
qed

theorem archive_is_soft_delete_witness:
  "map habit_id (select_habits archive_server ''u1'') = [''h1'']
   \<and> (let (evs, loading, st', srv') = handleDelete archive_server None empty_list_state ''h1'' in
        select_habits srv' ''u1'' = []
        \<and> map is_archived (habits_table srv') = [True]
        \<and> (habits_table srv' ! 0)\<lparr> is_archived := False \<rparr> = example_row ''h1''
        \<and> select_logs_of_habit srv' ''h1'' = [example_log ''h1'' 19728, example_log ''h1'' 19729])"
proof -
  have a: "map habit_id (select_habits archive_server ''u1'') = [''h1'']" by code_simp
  have b: "0 < length (habits_table archive_server)" by code_simp
  have c: "habit_id (habits_table archive_server ! 0) = ''h1''
           \<and> Some (habit_user_id (habits_table archive_server ! 0)) = session archive_server" by code_simp
  have d: "is_archived (habits_table archive_server ! 0) = False" by code_simp
  have e: "habits_table archive_server ! 0 = example_row ''h1''"
    by (simp add: archive_server_def example_server_def)
  have f: "select_logs_of_habit archive_server ''h1'' = [example_log ''h1'' 19728, example_log ''h1'' 19729]"
    by code_simp
  have g: "length (habits_table archive_server) = 1" by code_simp
  have k: "filter (\<lambda>h. habit_id h \<noteq> ''h1'') (select_habits archive_server ''u1'') = []"
    using a by (auto simp: filter_empty_conv)
  obtain evs loading st' srv' where
    hd: "handleDelete archive_server None empty_list_state ''h1'' = (evs, loading, st', srv')"
    by (rule prod_cases4)
  note T = archive_is_soft_delete[of archive_server empty_list_state "''h1''"]
  note T' = T[unfolded hd Let_def prod.case]
  note sel = T'[THEN conjunct2, THEN conjunct2, THEN conjunct2, THEN conjunct1, rule_format]
  note row0 = T'[THEN conjunct2, THEN conjunct2, THEN conjunct1, rule_format, OF b]
  note logs = T'[THEN conjunct2, THEN conjunct2, THEN conjunct2, THEN conjunct2, THEN conjunct2]
  note len = T'[THEN conjunct2, THEN conjunct1]
  have s1: "select_habits srv' ''u1'' = []" using sel[of "''u1''"] k by simp
  have s2: "is_archived (habits_table srv' ! 0)"
    using row0[THEN conjunct2, THEN conjunct1] c by (rule mp)
  have s3: "(habits_table srv' ! 0)\<lparr> is_archived := False \<rparr> = example_row ''h1''"
    using row0[THEN conjunct1] unfolding d unfolding e .
  from len g have "length (habits_table srv') = 1" by simp
  with s2 have s2': "map is_archived (habits_table srv') = [True]"
    by (cases "habits_table srv'") simp_all
  from logs f have s4: "select_logs_of_habit srv' ''h1'' = [example_log ''h1'' 19728, example_log ''h1'' 19729]"
    by simp
  from a s1 s2' s3 s4 show ?thesis unfolding hd by (simp only: prod.case Let_def)
qed

end
